theory Spec2Isabelle
  imports Complex_Main "HOL-Library.Word"
begin

unbundle bit_operations_syntax

section \<open>Data model\<close>

text \<open>
  The module \<^verbatim>\<open>src/wasm/accel.c\<close> has four functions over caller-owned byte buffers.
  A buffer \<^verbatim>\<open>(const uint8_t* data, size_t length)\<close> is modelled as the list of its
  \<^verbatim>\<open>length\<close> valid bytes. The C integer types keep their widths; \<^verbatim>\<open>size_t\<close> is the
  32-bit type of the WebAssembly target the module is written for. Loop counters are
  natural numbers: they count up to a buffer length, and an object never exceeds
  \<^verbatim>\<open>PTRDIFF_MAX\<close> bytes, so no counter of the source wraps around.
\<close>

type_synonym uint8_t = "8 word"
type_synonym uint32_t = "32 word"
type_synonym uint64_t = "64 word"
type_synonym size_t = "32 word"

definition bytes_of :: "string \<Rightarrow> uint8_t list" where
  "bytes_of s = map of_char s"

section \<open>Checksum: \<^verbatim>\<open>fast_crc32\<close>\<close>

text \<open>
  The fallback branch declares \<^verbatim>\<open>const uint32_t crc_table[256]\<close> with five
  initialisers; C sets the 251 entries without an initialiser to zero.
\<close>

definition crc_table :: "uint32_t list" where
  "crc_table =
     [0x00000000, 0x77073096, 0xEE0E612C, 0x990951BA, 0x2D02EF8D] @ replicate 251 0"

text \<open>The loop body \<^verbatim>\<open>crc = crc_table[(crc ^ data[i]) & 0xFF] ^ (crc >> 8)\<close>.\<close>

definition crc_table_step :: "uint32_t \<Rightarrow> uint8_t \<Rightarrow> uint32_t" where
  "crc_table_step crc b = (crc_table ! unat ((crc XOR ucast b) AND 0xFF)) XOR drop_bit 8 crc"

text \<open>
  The branch under \<^verbatim>\<open>__SSE4_2__\<close> calls the compiler intrinsic
  \<^verbatim>\<open>__builtin_ia32_crc32qi\<close>, the x86 instruction \<^verbatim>\<open>CRC32 r32, r/m8\<close>. The
  instruction is not code of the module; it is modelled by its architectural
  definition, one byte of the CRC-32C division (bit-reflected polynomial 0x82F63B78).
\<close>

definition crc32c_shift :: "uint32_t \<Rightarrow> uint32_t" where
  "crc32c_shift c = (if bit c 0 then drop_bit 1 c XOR 0x82F63B78 else drop_bit 1 c)"

definition ia32_crc32qi :: "uint32_t \<Rightarrow> uint8_t \<Rightarrow> uint32_t" where
  "ia32_crc32qi crc b = (crc32c_shift ^^ 8) (crc XOR ucast b)"

text \<open>Either loop runs over \<^verbatim>\<open>data[0 .. length)\<close> in order, updating the register.\<close>

fun crc_loop ::
  "(uint32_t \<Rightarrow> uint8_t \<Rightarrow> uint32_t) \<Rightarrow> uint8_t list \<Rightarrow> uint32_t \<Rightarrow> uint32_t" where
  "crc_loop step [] crc = crc"
| "crc_loop step (b # bs) crc = crc_loop step bs (step crc b)"

text \<open>
  \<^verbatim>\<open>fast_crc32\<close>; the flag says whether \<^verbatim>\<open>__SSE4_2__\<close> is defined at compile time.
\<close>

definition fast_crc32 :: "bool \<Rightarrow> uint8_t list \<Rightarrow> uint32_t" where
  "fast_crc32 sse4_2 data =
     (if sse4_2 then crc_loop ia32_crc32qi data 0xFFFFFFFF
      else crc_loop crc_table_step data 0xFFFFFFFF) XOR 0xFFFFFFFF"

subsection \<open>The reference CRC-32 of the specification\<close>

text \<open>
  The specification asks for the reflected CRC-32 with polynomial 0xEDB88320, driven by
  the complete 256-entry table generated from that polynomial: entry \<open>n\<close> is \<open>n\<close>
  after eight conditional shift-and-xor steps.
\<close>

definition crc32_shift :: "uint32_t \<Rightarrow> uint32_t" where
  "crc32_shift c = (if bit c 0 then drop_bit 1 c XOR 0xEDB88320 else drop_bit 1 c)"

definition crc32_table_entry :: "nat \<Rightarrow> uint32_t" where
  "crc32_table_entry n = (crc32_shift ^^ 8) (of_nat n)"

definition crc32_standard_table :: "uint32_t list" where
  "crc32_standard_table = map crc32_table_entry [0..<256]"

definition crc32_reference_step :: "uint32_t \<Rightarrow> uint8_t \<Rightarrow> uint32_t" where
  "crc32_reference_step crc b =
     (crc32_standard_table ! unat ((crc XOR ucast b) AND 0xFF)) XOR drop_bit 8 crc"

definition crc32_reference :: "uint8_t list \<Rightarrow> uint32_t" where
  "crc32_reference data = crc_loop crc32_reference_step data 0xFFFFFFFF XOR 0xFFFFFFFF"

section \<open>Comparator: \<^verbatim>\<open>fast_memcmp\<close>\<close>

text \<open>
  \<^verbatim>\<open>*(uint64_t*)(a + i)\<close> reads the eight bytes \<^verbatim>\<open>a[i .. i+8)\<close> as one machine
  word. Which of them is the least significant is the byte order of the target:
  WebAssembly and x86, the two targets the module names, are little-endian. The byte
  order is a parameter of the model, so that each property says what it depends on.
  Reading past the end of a buffer is undefined in C; the properties below take
  \<^verbatim>\<open>len\<close> within both buffers, which is the contract of the function.
\<close>

datatype byte_order = LittleEndian | BigEndian

fun le_word :: "uint8_t list \<Rightarrow> uint64_t" where
  "le_word [] = 0"
| "le_word (b # bs) = ucast b OR push_bit 8 (le_word bs)"

definition load_u64 :: "byte_order \<Rightarrow> uint8_t list \<Rightarrow> nat \<Rightarrow> uint64_t" where
  "load_u64 bo a i =
     (case bo of
        LittleEndian \<Rightarrow> le_word (take 8 (drop i a))
      | BigEndian \<Rightarrow> le_word (rev (take 8 (drop i a))))"

text \<open>The second loop, \<^verbatim>\<open>for (; i < len; i++)\<close>, and its fall-through \<^verbatim>\<open>return 0\<close>.\<close>

function byte_loop :: "uint8_t list \<Rightarrow> uint8_t list \<Rightarrow> nat \<Rightarrow> nat \<Rightarrow> int" where
  "byte_loop a b len i =
     (if i < len then
        (if a ! i \<noteq> b ! i then (if a ! i < b ! i then - 1 else 1)
         else byte_loop a b len (i + 1))
      else 0)"
  by pat_completeness auto
termination
  by (relation "measure (\<lambda>(a, b, len, i). len - i)") auto

text \<open>
  The first loop, \<^verbatim>\<open>for (; i + 8 <= len; i += 8)\<close>; when its condition fails the
  second loop goes on from the same \<^verbatim>\<open>i\<close>.
\<close>

function word_loop ::
  "byte_order \<Rightarrow> uint8_t list \<Rightarrow> uint8_t list \<Rightarrow> nat \<Rightarrow> nat \<Rightarrow> int" where
  "word_loop bo a b len i =
     (if i + 8 \<le> len then
        (if load_u64 bo a i \<noteq> load_u64 bo b i
         then (if load_u64 bo a i < load_u64 bo b i then - 1 else 1)
         else word_loop bo a b len (i + 8))
      else byte_loop a b len i)"
  by pat_completeness auto
termination
  by (relation "measure (\<lambda>(bo, a, b, len, i). len - i)") auto

definition fast_memcmp :: "byte_order \<Rightarrow> uint8_t list \<Rightarrow> uint8_t list \<Rightarrow> nat \<Rightarrow> int" where
  "fast_memcmp bo a b len = word_loop bo a b len 0"

subsection \<open>The reference comparison of the specification\<close>

text \<open>
  The specification's scan: at the first index \<open>i < len\<close> with \<open>a[i] \<noteq> b[i]\<close> the
  result is less (\<open>-1\<close>) or greater (\<open>1\<close>) by the unsigned comparison of the two bytes;
  without such an index it is equal (\<open>0\<close>).
\<close>

definition compare_reference :: "uint8_t list \<Rightarrow> uint8_t list \<Rightarrow> nat \<Rightarrow> int" where
  "compare_reference a b len =
     (case find (\<lambda>i. a ! i \<noteq> b ! i) [0..<len] of
        None \<Rightarrow> 0
      | Some i \<Rightarrow> if a ! i < b ! i then - 1 else 1)"

text \<open>
  Two notions for the proofs about the big-endian word loop: the number a byte list
  denotes with its first byte least significant, and the order of two byte lists by
  their first differing position.
\<close>

fun le_nat :: "uint8_t list \<Rightarrow> nat" where
  "le_nat [] = 0"
| "le_nat (b # bs) = unat b + 256 * le_nat bs"

fun first_diff_less :: "uint8_t list \<Rightarrow> uint8_t list \<Rightarrow> bool" where
  "first_diff_less (x # xs) (y # ys) = (if x \<noteq> y then x < y else first_diff_less xs ys)"
| "first_diff_less _ _ = False"

section \<open>Pattern search: \<^verbatim>\<open>find_pattern\<close>\<close>

text \<open>
  The packing loop \<^verbatim>\<open>pattern |= (uint64_t)buf[off + j] << (j * 8)\<close> for
  \<^verbatim>\<open>j < n\<close>; the needle is packed with \<^verbatim>\<open>off = 0\<close>.
\<close>

function pack_loop :: "uint8_t list \<Rightarrow> nat \<Rightarrow> nat \<Rightarrow> nat \<Rightarrow> uint64_t \<Rightarrow> uint64_t" where
  "pack_loop buf off n j pattern =
     (if j < n
      then pack_loop buf off n (j + 1) (pattern OR push_bit (j * 8) (ucast (buf ! (off + j))))
      else pattern)"
  by pat_completeness auto
termination
  by (relation "measure (\<lambda>(buf, off, n, j, pattern). n - j)") auto

text \<open>
  The scan for needles of at most eight bytes,
  \<^verbatim>\<open>for (i = 0; i <= haystack_len - needle_len; i++)\<close>, and the
  \<^verbatim>\<open>return (size_t)-1\<close> after it.
\<close>

function small_scan :: "uint8_t list \<Rightarrow> uint8_t list \<Rightarrow> uint64_t \<Rightarrow> nat \<Rightarrow> size_t" where
  "small_scan haystack needle needle_pattern i =
     (if i \<le> length haystack - length needle then
        (if pack_loop haystack i (length needle) 0 0 = needle_pattern then of_nat i
         else small_scan haystack needle needle_pattern (i + 1))
      else - 1)"
  by pat_completeness auto
termination
  by (relation "measure (\<lambda>(h, n, p, i). Suc (length h - length n) - i)") auto

text \<open>The scan for longer needles, with \<^verbatim>\<open>fast_memcmp(haystack + i, needle, needle_len)\<close>.\<close>

function large_scan :: "byte_order \<Rightarrow> uint8_t list \<Rightarrow> uint8_t list \<Rightarrow> nat \<Rightarrow> size_t" where
  "large_scan bo haystack needle i =
     (if i \<le> length haystack - length needle then
        (if fast_memcmp bo (drop i haystack) needle (length needle) = 0 then of_nat i
         else large_scan bo haystack needle (i + 1))
      else - 1)"
  by pat_completeness auto
termination
  by (relation "measure (\<lambda>(bo, h, n, i). Suc (length h - length n) - i)") auto

definition find_pattern :: "byte_order \<Rightarrow> uint8_t list \<Rightarrow> uint8_t list \<Rightarrow> size_t" where
  "find_pattern bo haystack needle =
     (if length needle = 0 \<or> length needle > length haystack then - 1
      else if length needle \<le> 8
      then small_scan haystack needle (pack_loop needle 0 (length needle) 0 0) 0
      else large_scan bo haystack needle 0)"

text \<open>The needle occurs in the haystack at offset \<open>i\<close>.\<close>

definition occurs_at :: "uint8_t list \<Rightarrow> uint8_t list \<Rightarrow> nat \<Rightarrow> bool" where
  "occurs_at haystack needle i \<longleftrightarrow>
     i + length needle \<le> length haystack \<and> take (length needle) (drop i haystack) = needle"

section \<open>Entropy estimator: \<^verbatim>\<open>calculate_entropy\<close>\<close>

text \<open>
  The counting loop over \<^verbatim>\<open>uint32_t counts[256] = {0}\<close>:
  \<^verbatim>\<open>if (counts[data[i]]++ == 0) unique_count++\<close>. The counters are 32-bit and wrap
  around; \<^verbatim>\<open>unique_count\<close> is written but never read.
\<close>

fun count_loop :: "uint8_t list \<Rightarrow> uint32_t list \<Rightarrow> size_t \<Rightarrow> uint32_t list \<times> size_t" where
  "count_loop [] counts unique_count = (counts, unique_count)"
| "count_loop (b # bs) counts unique_count =
     count_loop bs (counts[unat b := counts ! unat b + 1])
       (if counts ! unat b = 0 then unique_count + 1 else unique_count)"

definition byte_counts :: "uint8_t list \<Rightarrow> uint32_t list" where
  "byte_counts data = fst (count_loop data (replicate 256 0) 0)"

text \<open>
  The summation works in \<^verbatim>\<open>double\<close>. A finite double is modelled by the real number it
  denotes, and an arithmetic operation by the exact operation followed by the rounding
  of IEEE 754 binary64: to the nearest representable value, ties to the even
  significand. A value of magnitude in \<open>[2^e, 2^(e+1))\<close> is rounded to a multiple of
  \<open>2^(e-52)\<close>; below \<open>2^-1022\<close> the spacing stays \<open>2^-1074\<close>. Overflow to infinity is
  not modelled: no value of this function reaches \<open>2^1024\<close>.
\<close>

definition round_half_even :: "real \<Rightarrow> int" where
  "round_half_even x =
     (if x - of_int \<lfloor>x\<rfloor> < 1 / 2 then \<lfloor>x\<rfloor>
      else if x - of_int \<lfloor>x\<rfloor> > 1 / 2 then \<lfloor>x\<rfloor> + 1
      else if even \<lfloor>x\<rfloor> then \<lfloor>x\<rfloor> else \<lfloor>x\<rfloor> + 1)"

definition binade :: "real \<Rightarrow> int" where
  "binade x = max \<lfloor>log 2 \<bar>x\<bar>\<rfloor> (- 1022)"

definition binary64 :: "real \<Rightarrow> real" where
  "binary64 x =
     (if x = 0 then 0
      else of_int (round_half_even (x * 2 powi (52 - binade x))) * 2 powi (binade x - 52))"

text \<open>
  \<^verbatim>\<open>log2\<close> is the C library's function, not code of the module, and is a parameter
  \<open>lg\<close> of the model. IEEE 754 recommends the correctly rounded function:
\<close>

definition log2_correct :: "real \<Rightarrow> real" where
  "log2_correct x = binary64 (log 2 x)"

text \<open>
  \<^verbatim>\<open>double p = (double)counts[i] / length\<close>: the conversion of a 32-bit counter is exact, the
  conversion of \<^verbatim>\<open>length\<close> rounds (it is exact below \<open>2^53\<close>), and the division rounds.
\<close>

definition probability :: "uint32_t list \<Rightarrow> nat \<Rightarrow> nat \<Rightarrow> real" where
  "probability counts len i = binary64 (real (unat (counts ! i)) / binary64 (real len))"

text \<open>
  \<^verbatim>\<open>for (int i = 0; i < 256; i++) if (counts[i] > 0) entropy -= p * log2(p)\<close>,
  with a rounding after the multiplication and after the subtraction: WebAssembly
  evaluates in binary64 and has no fused multiply-add.
\<close>

function entropy_loop :: "(real \<Rightarrow> real) \<Rightarrow> uint32_t list \<Rightarrow> nat \<Rightarrow> nat \<Rightarrow> real \<Rightarrow> real" where
  "entropy_loop lg counts len i entropy =
     (if i < 256 then
        entropy_loop lg counts len (i + 1)
          (if counts ! i > 0
           then binary64 (entropy -
             binary64 (probability counts len i * lg (probability counts len i)))
           else entropy)
      else entropy)"
  by pat_completeness auto
termination
  by (relation "measure (\<lambda>(lg, counts, len, i, entropy). 256 - i)") auto

text \<open>\<^verbatim>\<open>calculate_entropy\<close> with its early return \<^verbatim>\<open>0.0\<close> for the empty buffer.\<close>

definition calculate_entropy :: "(real \<Rightarrow> real) \<Rightarrow> uint8_t list \<Rightarrow> real" where
  "calculate_entropy lg data =
     (if length data = 0 then 0
      else entropy_loop lg (byte_counts data) (length data) 0 0)"

subsection \<open>The reference entropy of the specification\<close>

text \<open>
  The specification's formula: with \<open>p\<^sub>v\<close> the relative frequency of byte value \<open>v\<close> in
  \<open>{0..255}\<close>, the entropy is \<open>- \<Sum> p\<^sub>v \<cdot> log\<^sub>2 p\<^sub>v\<close> over the values with \<open>p\<^sub>v > 0\<close>, and
  \<open>0\<close> for the empty buffer.
\<close>

definition frequency :: "uint8_t list \<Rightarrow> uint8_t \<Rightarrow> real" where
  "frequency data v = real (count_list data v) / real (length data)"

definition entropy_reference :: "uint8_t list \<Rightarrow> real" where
  "entropy_reference data =
     (if data = [] then 0
      else - (\<Sum>k = 0..<256.
        if 0 < frequency data (of_nat k)
        then frequency data (of_nat k) * log 2 (frequency data (of_nat k))
        else 0))"

subsection \<open>A buffer close to the uniform distribution\<close>

text \<open>
  59,800,321 bytes: byte value 0 occurs 233,596 times and each of the values 1 to 255
  occurs 233,595 times.
\<close>

definition near_uniform_buffer :: "uint8_t list" where
  "near_uniform_buffer =
     replicate 233596 0 @ concat (map (\<lambda>v. replicate 233595 (of_nat v)) [1..<256])"

text \<open>
  Two notions for evaluating the summation: the rounding at a known exponent, and the
  loop body repeated with one fixed term.
\<close>

definition round_at :: "int \<Rightarrow> real \<Rightarrow> real" where
  "round_at e x = of_int (round_half_even (x * 2 powi (52 - e))) * 2 powi (e - 52)"

fun accumulate :: "real \<Rightarrow> nat \<Rightarrow> real \<Rightarrow> real" where
  "accumulate t 0 entropy = entropy"
| "accumulate t (Suc n) entropy = accumulate t n (binary64 (entropy - t))"

declare byte_loop.simps [simp del] word_loop.simps [simp del] pack_loop.simps [simp del]
  small_scan.simps [simp del] large_scan.simps [simp del] entropy_loop.simps [simp del]

section \<open>Properties of the checksum\<close>

lemma crc32_standard_table_length: "length crc32_standard_table = 256"
  by (simp add: crc32_standard_table_def)

lemma crc32_standard_table_nth:
  "n < 256 \<Longrightarrow> crc32_standard_table ! n = crc32_table_entry n"
  by (simp add: crc32_standard_table_def)

lemma low_byte_index: "unat ((w :: uint32_t) AND 0xFF) < 256"
proof -
  have "w AND 0xFF \<le> 0xFF"
    by (rule word_and_le1)
  then show ?thesis
    by (simp add: word_le_nat_alt)
qed

lemma funpow_8: "(f ^^ 8) x = f (f (f (f (f (f (f (f x)))))))"
  by (simp add: eval_nat_numeral)

lemma crc32_reference_step_entry:
  "crc32_reference_step crc b =
     (crc32_shift ^^ 8) ((crc XOR ucast b) AND 0xFF) XOR drop_bit 8 crc"
  by (simp add: crc32_reference_step_def crc32_standard_table_nth low_byte_index
      crc32_table_entry_def)

text \<open>
  The five initialisers of the fallback table are entries 0 to 3 and entry 255 of the
  standard table; the last one sits at index 4, and index 255 holds zero.
\<close>

lemma crc_table_fragment:
  "crc_table ! 0 = crc32_standard_table ! 0"
  "crc_table ! 1 = crc32_standard_table ! 1"
  "crc_table ! 2 = crc32_standard_table ! 2"
  "crc_table ! 3 = crc32_standard_table ! 3"
  "crc_table ! 4 = crc32_standard_table ! 255"
  "crc_table ! 4 \<noteq> crc32_standard_table ! 4"
  "crc_table ! 255 \<noteq> crc32_standard_table ! 255"
  by (simp_all add: crc_table_def crc32_standard_table_nth crc32_table_entry_def funpow_8
      crc32_shift_def)

text \<open>
  C6: the checksum of the empty buffer is \<open>0x00000000\<close> on both compile-time paths
  (the table-driven fallback and the SSE4.2 intrinsic): no byte is processed and the
  initial register \<open>0xFFFFFFFF\<close> is complemented.
\<close>

theorem fast_crc32_empty: "fast_crc32 sse4_2 [] = 0x00000000"
  by (simp add: fast_crc32_def)

text \<open>
  C1: the specification requires the standard CRC-32, whose check string
  \<open>123456789\<close> yields \<open>0xCBF43926\<close>, as the reference does. The fallback table of
  the module has five initialisers and 251 zero entries, and the function returns
  \<open>0xFFFFFFFF\<close> on that input; the SSE4.2 path computes CRC-32C and returns
  \<open>0xE3069283\<close>.
\<close>

theorem fast_crc32_check_vector:
  "crc32_reference (bytes_of ''123456789'') = 0xCBF43926
   \<and> fast_crc32 False (bytes_of ''123456789'') = 0xFFFFFFFF
   \<and> fast_crc32 True (bytes_of ''123456789'') = 0xE3069283"
proof -
  have "crc32_reference (bytes_of ''123456789'') = 0xCBF43926"
    by (simp add: crc32_reference_def crc32_reference_step_entry funpow_8 crc32_shift_def
        bytes_of_def)
  moreover have "fast_crc32 False (bytes_of ''123456789'') = 0xFFFFFFFF"
    by (simp add: fast_crc32_def crc_table_step_def crc_table_def bytes_of_def)
  moreover have "fast_crc32 True (bytes_of ''123456789'') = 0xE3069283"
    by (simp add: fast_crc32_def ia32_crc32qi_def funpow_8 crc32c_shift_def bytes_of_def)
  ultimately show ?thesis
    by simp
qed

section \<open>Properties of the comparator\<close>

lemma bit_le_word:
  "bit (le_word bs) k \<longleftrightarrow> k < 64 \<and> k div 8 < length bs \<and> bit (bs ! (k div 8)) (k mod 8)"
proof (induction bs arbitrary: k)
  case Nil
  show ?case by simp
next
  case (Cons b bs)
  show ?case
  proof (cases "k < 8")
    case True
    then show ?thesis
      by (simp add: bit_or_iff bit_push_bit_iff bit_ucast_iff)
  next
    case False
    then have k: "k div 8 = Suc ((k - 8) div 8)" "k mod 8 = (k - 8) mod 8"
      by (simp_all add: le_div_geq le_mod_geq)
    have nb: "\<not> bit b k"
      using False bit_imp_le_length [of b k] by auto
    from False show ?thesis
      by (auto simp add: bit_or_iff bit_push_bit_iff bit_ucast_iff Cons.IH k nb)
  qed
qed

lemma le_word_nth_bit:
  assumes "i < length bs" "length bs \<le> 8"
  shows "bit (bs ! i) m \<longleftrightarrow> m < 8 \<and> bit (le_word bs) (8 * i + m)"
proof (cases "m < 8")
  case True
  with assms have "8 * i + m < 64" by simp
  moreover from True have "(8 * i + m) div 8 = i" "(8 * i + m) mod 8 = m" by simp_all
  ultimately show ?thesis
    using assms True by (simp add: bit_le_word)
next
  case False
  then show ?thesis
    using bit_imp_le_length [of "bs ! i" m] by auto
qed

lemma le_word_inject:
  assumes "length xs = length ys" "length xs \<le> 8"
  shows "le_word xs = le_word ys \<longleftrightarrow> xs = ys"
proof
  assume eq: "le_word xs = le_word ys"
  show "xs = ys"
  proof (rule nth_equalityI)
    show "length xs = length ys" by (rule assms(1))
  next
    fix i assume i: "i < length xs"
    show "xs ! i = ys ! i"
    proof (rule bit_eqI)
      fix m
      show "bit (xs ! i) m \<longleftrightarrow> bit (ys ! i) m"
        using i assms eq by (simp add: le_word_nth_bit)
    qed
  qed
qed simp

lemma load_u64_eq_iff:
  assumes "i + 8 \<le> length a" "i + 8 \<le> length b"
  shows "load_u64 bo a i = load_u64 bo b i \<longleftrightarrow> (\<forall>j<8. a ! (i + j) = b ! (i + j))"
proof -
  let ?xs = "take 8 (drop i a)" and ?ys = "take 8 (drop i b)"
  have len: "length ?xs = 8" "length ?ys = 8"
    using assms by simp_all
  have "load_u64 bo a i = load_u64 bo b i \<longleftrightarrow> ?xs = ?ys"
    using len by (cases bo) (simp_all add: load_u64_def le_word_inject)
  also have "\<dots> \<longleftrightarrow> (\<forall>j<8. ?xs ! j = ?ys ! j)"
    using len by (simp add: list_eq_iff_nth_eq)
  also have "\<dots> \<longleftrightarrow> (\<forall>j<8. a ! (i + j) = b ! (i + j))"
    using assms by simp
  finally show ?thesis .
qed

lemma byte_loop_zero_iff:
  "byte_loop a b len i = 0 \<longleftrightarrow> (\<forall>k. i \<le> k \<and> k < len \<longrightarrow> a ! k = b ! k)"
proof (induction a b len i rule: byte_loop.induct)
  case (1 a b len i)
  show ?case
  proof (cases "i < len")
    case False
    then show ?thesis
      by (auto simp add: byte_loop.simps [of a b len i])
  next
    case True
    show ?thesis
    proof (cases "a ! i = b ! i")
      case False
      with True show ?thesis
        by (auto simp add: byte_loop.simps [of a b len i])
    next
      case same: True
      have "byte_loop a b len i = byte_loop a b len (i + 1)"
        using True same by (simp add: byte_loop.simps [of a b len i])
      also have "\<dots> = 0 \<longleftrightarrow> (\<forall>k. i + 1 \<le> k \<and> k < len \<longrightarrow> a ! k = b ! k)"
        using True same "1.IH" by simp
      also have "\<dots> \<longleftrightarrow> (\<forall>k. i \<le> k \<and> k < len \<longrightarrow> a ! k = b ! k)"
        using same by (metis Suc_eq_plus1 Suc_leI le_neq_implies_less le_SucI Suc_le_lessD less_imp_le_nat)
      finally show ?thesis .
    qed
  qed
qed

lemma word_loop_zero_iff:
  assumes "len \<le> length a" "len \<le> length b"
  shows "word_loop bo a b len i = 0 \<longleftrightarrow> (\<forall>k. i \<le> k \<and> k < len \<longrightarrow> a ! k = b ! k)"
  using assms
proof (induction bo a b len i rule: word_loop.induct)
  case (1 bo a b len i)
  show ?case
  proof (cases "i + 8 \<le> len")
    case False
    then show ?thesis
      by (simp add: word_loop.simps [of bo a b len i] byte_loop_zero_iff)
  next
    case True
    then have bounds: "i + 8 \<le> length a" "i + 8 \<le> length b"
      using "1.prems" by simp_all
    note ld = load_u64_eq_iff [OF bounds, of bo]
    show ?thesis
    proof (cases "load_u64 bo a i = load_u64 bo b i")
      case False
      then obtain j where "j < 8" "a ! (i + j) \<noteq> b ! (i + j)"
        using ld by auto
      then have "\<not> (\<forall>k. i \<le> k \<and> k < len \<longrightarrow> a ! k = b ! k)"
        using True by (auto intro!: exI [of _ "i + j"])
      with False True show ?thesis
        by (simp add: word_loop.simps [of bo a b len i])
    next
      case same: True
      then have first: "\<forall>j<8. a ! (i + j) = b ! (i + j)"
        using ld by simp
      have "word_loop bo a b len i = word_loop bo a b len (i + 8)"
        using True same by (simp add: word_loop.simps [of bo a b len i])
      also have "\<dots> = 0 \<longleftrightarrow> (\<forall>k. i + 8 \<le> k \<and> k < len \<longrightarrow> a ! k = b ! k)"
        using True same "1.prems" by (intro "1.IH") simp_all
      also have "\<dots> \<longleftrightarrow> (\<forall>k. i \<le> k \<and> k < len \<longrightarrow> a ! k = b ! k)"
      proof (intro iffI allI impI)
        fix k assume h: "\<forall>k. i + 8 \<le> k \<and> k < len \<longrightarrow> a ! k = b ! k" and k: "i \<le> k \<and> k < len"
        show "a ! k = b ! k"
        proof (cases "i + 8 \<le> k")
          case True
          with h k show ?thesis by simp
        next
          case False
          with k have "k - i < 8" "k = i + (k - i)" by simp_all
          with first show ?thesis by metis
        qed
      next
        fix k assume "\<forall>k. i \<le> k \<and> k < len \<longrightarrow> a ! k = b ! k" "i + 8 \<le> k \<and> k < len"
        then show "a ! k = b ! k" by simp
      qed
      finally show ?thesis .
    qed
  qed
qed

lemma byte_loop_swap: "byte_loop b a len i = - byte_loop a b len i"
proof (induction a b len i rule: byte_loop.induct)
  case (1 a b len i)
  show ?case
  proof (cases "i < len \<and> a ! i = b ! i")
    case True
    then show ?thesis
      using "1.IH" by (simp add: byte_loop.simps [of a b len i] byte_loop.simps [of b a len i])
  next
    case False
    then show ?thesis
      by (auto simp add: byte_loop.simps [of a b len i] byte_loop.simps [of b a len i])
  qed
qed

lemma word_loop_swap: "word_loop bo b a len i = - word_loop bo a b len i"
proof (induction bo a b len i rule: word_loop.induct)
  case (1 bo a b len i)
  show ?case
  proof (cases "i + 8 \<le> len")
    case False
    then show ?thesis
      by (simp add: word_loop.simps [of bo a b len i] word_loop.simps [of bo b a len i]
          byte_loop_swap [of a b len i])
  next
    case True
    show ?thesis
    proof (cases "load_u64 bo a i = load_u64 bo b i")
      case same: True
      then show ?thesis
        using True "1.IH"
        by (simp add: word_loop.simps [of bo a b len i] word_loop.simps [of bo b a len i])
    next
      case False
      then consider "load_u64 bo a i < load_u64 bo b i" | "load_u64 bo b i < load_u64 bo a i"
        using linorder_cases [of "load_u64 bo a i" "load_u64 bo b i"] by blast
      then show ?thesis
      proof cases
        case 1
        then have "\<not> load_u64 bo b i < load_u64 bo a i"
          by simp
        with 1 False True show ?thesis
          by (simp add: word_loop.simps [of bo a b len i] word_loop.simps [of bo b a len i])
      next
        case 2
        then have "\<not> load_u64 bo a i < load_u64 bo b i"
          by simp
        with 2 False True show ?thesis
          by (simp add: word_loop.simps [of bo a b len i] word_loop.simps [of bo b a len i])
      qed
    qed
  qed
qed

lemma byte_loop_same: "byte_loop a a len i = 0"
  by (simp add: byte_loop_zero_iff)

lemma word_loop_same: "word_loop bo a a len i = 0"
  using word_loop_swap [of bo a a len i] by simp

lemma byte_loop_range: "byte_loop a b len i \<in> {- 1, 0, 1}"
proof (induction a b len i rule: byte_loop.induct)
  case (1 a b len i)
  then show ?case
    by (simp add: byte_loop.simps [of a b len i])
qed

lemma word_loop_range: "word_loop bo a b len i \<in> {- 1, 0, 1}"
proof (induction bo a b len i rule: word_loop.induct)
  case (1 bo a b len i)
  then show ?case
    using byte_loop_range [of a b len i] by (simp add: word_loop.simps [of bo a b len i])
qed

subsection \<open>Where the comparator agrees with the reference\<close>

text \<open>
  The byte loop is the reference scan. Hence the comparator agrees with the reference
  whenever the word loop is not entered (\<open>len < 8\<close>), and on a big-endian target for
  every length, where the order of two loaded words is the order of their first
  differing byte.
\<close>

lemma byte_loop_find:
  "byte_loop a b len i =
     (case find (\<lambda>k. a ! k \<noteq> b ! k) [i..<len] of
        None \<Rightarrow> 0
      | Some k \<Rightarrow> if a ! k < b ! k then - 1 else 1)"
proof (induction a b len i rule: byte_loop.induct)
  case (1 a b len i)
  show ?case
  proof (cases "i < len")
    case False
    then show ?thesis
      by (simp add: byte_loop.simps [of a b len i])
  next
    case True
    then have "[i..<len] = i # [i + 1..<len]"
      by (simp add: upt_conv_Cons)
    with True "1.IH" show ?thesis
      by (simp add: byte_loop.simps [of a b len i])
  qed
qed

lemma byte_loop_reference: "byte_loop a b len 0 = compare_reference a b len"
  by (simp add: byte_loop_find compare_reference_def)

lemma fast_memcmp_short:
  assumes "len < 8"
  shows "fast_memcmp bo a b len = compare_reference a b len"
  using assms by (simp add: fast_memcmp_def word_loop.simps [of bo a b len 0] byte_loop_reference)

lemma unat_byte_less: "unat (b :: uint8_t) < 256"
  using unsigned_less [of b] by simp

lemma le_nat_less: "le_nat bs < 256 ^ length bs"
proof (induction bs)
  case Nil
  show ?case by simp
next
  case (Cons b bs)
  have "unat b + 256 * le_nat bs < 256 + 256 * le_nat bs"
    using unat_byte_less [of b] by simp
  also have "\<dots> = 256 * Suc (le_nat bs)"
    by simp
  also have "\<dots> \<le> 256 * 256 ^ length bs"
    using Cons.IH by (intro mult_le_mono2) simp
  finally show ?case
    by simp
qed

lemma unat_byte_cons:
  fixes b :: uint8_t and w :: uint64_t
  assumes "unat w < 2 ^ 56"
  shows "unat (ucast b OR push_bit 8 w) = unat b + 256 * unat w"
proof -
  have disjoint: "\<not> bit (ucast b :: uint64_t) n \<or> \<not> bit (push_bit 8 w) n" for n
    using bit_imp_le_length [of b n] by (auto simp add: bit_ucast_iff bit_push_bit_iff)
  have byte: "unat (ucast b :: uint64_t) = unat b"
    using unat_byte_less [of b] by (simp add: unsigned_ucast_eq take_bit_nat_eq_self)
  have "unat w * unat (256 :: uint64_t) < 2 ^ LENGTH(64)"
    using assms by simp
  then have "unat (w * 256) = unat w * unat (256 :: uint64_t)"
    by (simp only: unat_mult_lem)
  then have shifted: "unat (push_bit 8 w) = 256 * unat w"
    by (simp add: push_bit_eq_mult)
  have "unat (ucast b :: uint64_t) + unat (push_bit 8 w) < 2 ^ LENGTH(64)"
    using assms unat_byte_less [of b] by (simp add: byte shifted)
  then have "unat (ucast b + push_bit 8 w) = unat (ucast b :: uint64_t) + unat (push_bit 8 w)"
    by (simp only: unat_add_lem)
  moreover have "ucast b + push_bit 8 w = ucast b OR push_bit 8 w"
    using disjoint by (rule disjunctive_add)
  ultimately show ?thesis
    by (simp add: byte shifted)
qed

lemma unat_le_word:
  assumes "length bs \<le> 8"
  shows "unat (le_word bs) = le_nat bs"
  using assms
proof (induction bs)
  case Nil
  show ?case by simp
next
  case (Cons b bs)
  then have IH: "unat (le_word bs) = le_nat bs" and short: "length bs \<le> 7"
    by simp_all
  have "le_nat bs < 256 ^ length bs"
    by (rule le_nat_less)
  also have "\<dots> \<le> (256 :: nat) ^ 7"
    using short by (intro power_increasing) simp_all
  finally have "unat (le_word bs) < 2 ^ 56"
    by (simp add: IH)
  then show ?case
    by (simp add: unat_byte_cons IH)
qed

lemma le_nat_append: "le_nat (xs @ ys) = le_nat xs + 256 ^ length xs * le_nat ys"
  by (induction xs) (simp_all add: algebra_simps)

lemma le_nat_rev_less:
  assumes "length xs = length ys"
  shows "le_nat (rev xs) < le_nat (rev ys) \<longleftrightarrow> first_diff_less xs ys"
  using assms
proof (induction xs ys rule: list_induct2)
  case Nil
  show ?case by simp
next
  case (Cons x xs y ys)
  let ?n = "(256 :: nat) ^ length xs"
  have A: "le_nat (rev xs) < ?n" and B: "le_nat (rev ys) < ?n"
    using le_nat_less [of "rev xs"] le_nat_less [of "rev ys"] Cons.hyps by simp_all
  have val: "le_nat (rev xs @ [b]) = le_nat (rev xs) + ?n * unat b"
    "le_nat (rev ys @ [b]) = le_nat (rev ys) + ?n * unat b" for b
    using Cons.hyps by (simp_all add: le_nat_append)
  consider "unat x < unat y" | "unat x = unat y" | "unat y < unat x"
    by linarith
  then show ?case
  proof cases
    case 1
    then have "?n * Suc (unat x) \<le> ?n * unat y"
      by (intro mult_le_mono2) simp
    with A have "le_nat (rev xs) + ?n * unat x < le_nat (rev ys) + ?n * unat y"
      by simp
    moreover from 1 have "x < y" "x \<noteq> y"
      by (auto simp add: word_less_nat_alt)
    ultimately show ?thesis
      by (simp add: val)
  next
    case 2
    then have "x = y"
      by (simp add: word_unat_eq_iff)
    then show ?thesis
      using Cons.IH by (simp add: val)
  next
    case 3
    then have "?n * Suc (unat y) \<le> ?n * unat x"
      by (intro mult_le_mono2) simp
    with B have "\<not> le_nat (rev xs) + ?n * unat x < le_nat (rev ys) + ?n * unat y"
      by simp
    moreover from 3 have "\<not> x < y" "x \<noteq> y"
      by (auto simp add: word_less_nat_alt)
    ultimately show ?thesis
      by (simp add: val)
  qed
qed

lemma byte_loop_group:
  assumes "i + n \<le> len" "len \<le> length a" "len \<le> length b"
  shows "byte_loop a b len i =
     (if take n (drop i a) = take n (drop i b) then byte_loop a b len (i + n)
      else if first_diff_less (take n (drop i a)) (take n (drop i b)) then - 1 else 1)"
  using assms
proof (induction n arbitrary: i)
  case 0
  show ?case by simp
next
  case (Suc n)
  then have i: "i < len" "i < length a" "i < length b"
    by simp_all
  have split: "take (Suc n) (drop i a) = a ! i # take n (drop (Suc i) a)"
    "take (Suc n) (drop i b) = b ! i # take n (drop (Suc i) b)"
    using i by (simp_all flip: Cons_nth_drop_Suc)
  show ?case
  proof (cases "a ! i = b ! i")
    case False
    with i show ?thesis
      by (simp add: byte_loop.simps [of a b len i] split)
  next
    case True
    have "byte_loop a b len i = byte_loop a b len (Suc i)"
      using True i by (simp add: byte_loop.simps [of a b len i])
    also have "\<dots> =
     (if take n (drop (Suc i) a) = take n (drop (Suc i) b) then byte_loop a b len (Suc i + n)
      else if first_diff_less (take n (drop (Suc i) a)) (take n (drop (Suc i) b)) then - 1 else 1)"
      using Suc.prems by (intro Suc.IH) simp_all
    finally show ?thesis
      using True by (simp add: split)
  qed
qed

lemma load_u64_big_endian_less:
  assumes "i + 8 \<le> length a" "i + 8 \<le> length b"
  shows "load_u64 BigEndian a i < load_u64 BigEndian b i \<longleftrightarrow>
     first_diff_less (take 8 (drop i a)) (take 8 (drop i b))"
proof -
  let ?xs = "take 8 (drop i a)" and ?ys = "take 8 (drop i b)"
  have len: "length ?xs = 8" "length ?ys = 8"
    using assms by simp_all
  have "load_u64 BigEndian a i < load_u64 BigEndian b i \<longleftrightarrow>
      unat (le_word (rev ?xs)) < unat (le_word (rev ?ys))"
    by (simp add: load_u64_def word_less_nat_alt)
  also have "\<dots> \<longleftrightarrow> le_nat (rev ?xs) < le_nat (rev ?ys)"
    using len by (simp add: unat_le_word)
  also have "\<dots> \<longleftrightarrow> first_diff_less ?xs ?ys"
    using len by (intro le_nat_rev_less) simp
  finally show ?thesis .
qed

lemma load_u64_eq_take:
  assumes "i + 8 \<le> length a" "i + 8 \<le> length b"
  shows "load_u64 bo a i = load_u64 bo b i \<longleftrightarrow> take 8 (drop i a) = take 8 (drop i b)"
proof -
  have "length (take 8 (drop i a)) = 8" "length (take 8 (drop i b)) = 8"
    using assms by simp_all
  then show ?thesis
    by (cases bo) (simp_all add: load_u64_def le_word_inject)
qed

lemma word_loop_big_endian:
  assumes "len \<le> length a" "len \<le> length b"
  shows "word_loop BigEndian a b len i = byte_loop a b len i"
  using assms
proof (induction BigEndian a b len i rule: word_loop.induct)
  case (1 a b len i)
  show ?case
  proof (cases "i + 8 \<le> len")
    case False
    then show ?thesis
      by (simp add: word_loop.simps [of BigEndian a b len i])
  next
    case True
    then have bounds: "i + 8 \<le> length a" "i + 8 \<le> length b"
      using "1.prems" by simp_all
    note group = byte_loop_group [OF True "1.prems", of ]
    show ?thesis
    proof (cases "load_u64 BigEndian a i = load_u64 BigEndian b i")
      case same: True
      then have "word_loop BigEndian a b len i = word_loop BigEndian a b len (i + 8)"
        using True by (simp add: word_loop.simps [of BigEndian a b len i])
      also have "\<dots> = byte_loop a b len (i + 8)"
        using True same "1.prems" by (intro "1.hyps") simp_all
      also have "\<dots> = byte_loop a b len i"
        using same bounds by (simp add: group load_u64_eq_take)
      finally show ?thesis .
    next
      case False
      then show ?thesis
        using True bounds
        by (simp add: word_loop.simps [of BigEndian a b len i] group load_u64_eq_take
            load_u64_big_endian_less)
    qed
  qed
qed

lemma fast_memcmp_big_endian:
  assumes "len \<le> length a" "len \<le> length b"
  shows "fast_memcmp BigEndian a b len = compare_reference a b len"
  using assms by (simp add: fast_memcmp_def word_loop_big_endian byte_loop_reference)

subsection \<open>The claims about the comparator\<close>

text \<open>
  C7: the comparator is reflexive and antisymmetric. For every byte order, every pair
  of buffers \<open>a\<close>, \<open>b\<close> and every \<open>len\<close> within their valid bytes,
  \<open>fast_memcmp a a len\<close> is \<open>0\<close> (equal), and \<open>fast_memcmp b a len\<close> is the negation
  of \<open>fast_memcmp a b len\<close>, whose value is one of \<open>-1\<close>, \<open>0\<close>, \<open>1\<close>: less and
  greater swap, equal stays equal.
\<close>

theorem fast_memcmp_reflexive_antisymmetric:
  assumes "len \<le> length a" and "len \<le> length b"
  shows "fast_memcmp bo a a len = 0
    \<and> fast_memcmp bo b a len = - fast_memcmp bo a b len
    \<and> fast_memcmp bo a b len \<in> {- 1, 0, 1}"
proof -
  have "fast_memcmp bo a a len = 0"
    by (simp add: fast_memcmp_def word_loop_same)
  moreover have "fast_memcmp bo b a len = - fast_memcmp bo a b len"
    unfolding fast_memcmp_def by (rule word_loop_swap)
  moreover have "fast_memcmp bo a b len \<in> {- 1, 0, 1}"
    unfolding fast_memcmp_def by (rule word_loop_range)
  ultimately show ?thesis
    by blast
qed

theorem fast_memcmp_reflexive_antisymmetric_witness:
  "(9 \<le> length (bytes_of ''compress1'') \<and> 9 \<le> length (bytes_of ''compress2''))
   \<and> fast_memcmp LittleEndian (bytes_of ''compress1'') (bytes_of ''compress1'') 9 = 0
   \<and> fast_memcmp LittleEndian (bytes_of ''compress1'') (bytes_of ''compress2'') 9 = - 1
   \<and> fast_memcmp LittleEndian (bytes_of ''compress2'') (bytes_of ''compress1'') 9 = 1"
proof -
  have len: "9 \<le> length (bytes_of ''compress1'')" "9 \<le> length (bytes_of ''compress2'')"
    by (simp_all add: bytes_of_def)
  have "fast_memcmp LittleEndian (bytes_of ''compress1'') (bytes_of ''compress2'') 9 = - 1"
    by (simp add: fast_memcmp_def word_loop.simps byte_loop.simps load_u64_def bytes_of_def)
  with fast_memcmp_reflexive_antisymmetric [OF len, of LittleEndian] len show ?thesis
    by simp
qed

text \<open>
  C9: the equality verdict of the comparator is exact, whatever the byte order. For
  buffers \<open>a\<close>, \<open>b\<close> with at least \<open>len\<close> valid bytes, \<open>fast_memcmp a b len\<close> is
  \<open>0\<close> if and only if \<open>a[i] = b[i]\<close> for every \<open>i < len\<close>.
\<close>

theorem fast_memcmp_equal_iff:
  assumes "len \<le> length a" and "len \<le> length b"
  shows "fast_memcmp bo a b len = 0 \<longleftrightarrow> (\<forall>i<len. a ! i = b ! i)"
  using assms by (simp add: fast_memcmp_def word_loop_zero_iff)

theorem fast_memcmp_equal_iff_witness:
  "(9 \<le> length (bytes_of ''compress1'') \<and> 9 \<le> length (bytes_of ''compress2''))
   \<and> fast_memcmp LittleEndian (bytes_of ''compress1'') (bytes_of ''compress2'') 8 = 0
   \<and> fast_memcmp BigEndian (bytes_of ''compress1'') (bytes_of ''compress2'') 9 \<noteq> 0"
proof -
  have len: "9 \<le> length (bytes_of ''compress1'')" "9 \<le> length (bytes_of ''compress2'')"
    by (simp_all add: bytes_of_def)
  then have len8: "8 \<le> length (bytes_of ''compress1'')" "8 \<le> length (bytes_of ''compress2'')"
    by simp_all
  have same: "\<forall>i<8. bytes_of ''compress1'' ! i = bytes_of ''compress2'' ! i"
    by (simp add: bytes_of_def All_less_Suc eval_nat_numeral)
  have diff: "\<not> (\<forall>i<9. bytes_of ''compress1'' ! i = bytes_of ''compress2'' ! i)"
    by (simp add: bytes_of_def All_less_Suc eval_nat_numeral)
  from fast_memcmp_equal_iff [OF len8, of LittleEndian] fast_memcmp_equal_iff [OF len, of BigEndian]
    same diff len show ?thesis
    by simp
qed

text \<open>
  C2: the specification requires the result of the byte-by-byte reference scan. On a
  little-endian target the word loop orders two differing groups by their last
  differing byte, not their first: for \<open>a = 01 00 00 00 00 00 00 02\<close> and
  \<open>b = 02 00 00 00 00 00 00 01\<close> the reference scan says less (\<open>-1\<close>) and
  \<open>fast_memcmp\<close> returns greater (\<open>1\<close>).
\<close>

theorem fast_memcmp_little_endian_order:
  "fast_memcmp LittleEndian [1, 0, 0, 0, 0, 0, 0, 2] [2, 0, 0, 0, 0, 0, 0, 1] 8 = 1
   \<and> compare_reference [1, 0, 0, 0, 0, 0, 0, 2] [2, 0, 0, 0, 0, 0, 0, 1] 8 = - 1"
  by (simp add: fast_memcmp_def word_loop.simps byte_loop.simps load_u64_def
      compare_reference_def upt_rec [of 0])

section \<open>Properties of the pattern search\<close>

lemma bit_pack_loop:
  "bit (pack_loop buf off n j pat) k \<longleftrightarrow>
     bit pat k \<or> (k < 64 \<and> j \<le> k div 8 \<and> k div 8 < n \<and> bit (buf ! (off + k div 8)) (k mod 8))"
proof (induction buf off n j pat rule: pack_loop.induct)
  case (1 buf off n j pat)
  show ?case
  proof (cases "j < n")
    case False
    then show ?thesis
      by (auto simp add: pack_loop.simps [of buf off n j pat])
  next
    case True
    let ?b = "buf ! (off + j)"
    have byte: "bit (push_bit (j * 8) (ucast ?b :: uint64_t)) k \<longleftrightarrow>
        k < 64 \<and> k div 8 = j \<and> bit ?b (k mod 8)"
    proof (cases "j * 8 \<le> k \<and> k - j * 8 < 8")
      case True
      then have "k div 8 = j" "k mod 8 = k - j * 8"
        by (auto simp add: div_nat_eqI mod_nat_eqI)
      with True show ?thesis
        by (auto simp add: bit_push_bit_iff bit_ucast_iff)
    next
      case False
      then have "k div 8 \<noteq> j"
        by (auto simp add: not_less not_le)
      moreover have "\<not> bit ?b (k - j * 8)" if "j * 8 \<le> k"
        using that False bit_imp_le_length [of ?b "k - j * 8"] by auto
      ultimately show ?thesis
        by (auto simp add: bit_push_bit_iff bit_ucast_iff)
    qed
    have "bit (pack_loop buf off n j pat) k \<longleftrightarrow>
        bit (pack_loop buf off n (j + 1) (pat OR push_bit (j * 8) (ucast ?b))) k"
      using True by (simp add: pack_loop.simps [of buf off n j pat])
    also have "\<dots> \<longleftrightarrow> bit (pat OR push_bit (j * 8) (ucast ?b)) k \<or>
        (k < 64 \<and> j + 1 \<le> k div 8 \<and> k div 8 < n \<and> bit (buf ! (off + k div 8)) (k mod 8))"
      using True by (rule "1.IH")
    also have "\<dots> \<longleftrightarrow> bit pat k \<or>
        (k < 64 \<and> j \<le> k div 8 \<and> k div 8 < n \<and> bit (buf ! (off + k div 8)) (k mod 8))"
      using True by (auto simp add: bit_or_iff byte le_less Suc_le_eq)
    finally show ?thesis .
  qed
qed

lemma pack_loop_eq_iff:
  assumes "n \<le> 8"
  shows "pack_loop a off n 0 0 = pack_loop b off' n 0 0 \<longleftrightarrow>
     (\<forall>j<n. a ! (off + j) = b ! (off' + j))"
proof
  assume eq: "pack_loop a off n 0 0 = pack_loop b off' n 0 0"
  show "\<forall>j<n. a ! (off + j) = b ! (off' + j)"
  proof (intro allI impI)
    fix j assume j: "j < n"
    show "a ! (off + j) = b ! (off' + j)"
    proof (rule bit_eqI)
      fix m
      show "bit (a ! (off + j)) m \<longleftrightarrow> bit (b ! (off' + j)) m"
      proof (cases "m < 8")
        case True
        with j assms have k: "8 * j + m < 64" "(8 * j + m) div 8 = j" "(8 * j + m) mod 8 = m"
          by simp_all
        have "bit (pack_loop a off n 0 0) (8 * j + m) \<longleftrightarrow> bit (pack_loop b off' n 0 0) (8 * j + m)"
          by (simp add: eq)
        then show ?thesis
          using j k by (simp add: bit_pack_loop)
      next
        case False
        then show ?thesis
          using bit_imp_le_length [of "a ! (off + j)" m] bit_imp_le_length [of "b ! (off' + j)" m]
          by auto
      qed
    qed
  qed
next
  assume "\<forall>j<n. a ! (off + j) = b ! (off' + j)"
  then show "pack_loop a off n 0 0 = pack_loop b off' n 0 0"
    by (intro bit_eqI) (auto simp add: bit_pack_loop)
qed

lemma occurs_at_nth:
  "occurs_at haystack needle i \<longleftrightarrow>
     i + length needle \<le> length haystack \<and> (\<forall>j<length needle. haystack ! (i + j) = needle ! j)"
  by (auto simp add: occurs_at_def list_eq_iff_nth_eq)

lemma small_test_iff:
  assumes "length needle \<le> 8" "i + length needle \<le> length haystack"
  shows "pack_loop haystack i (length needle) 0 0 = pack_loop needle 0 (length needle) 0 0
     \<longleftrightarrow> occurs_at haystack needle i"
  using assms by (simp add: pack_loop_eq_iff occurs_at_nth)

lemma large_test_iff:
  assumes "i + length needle \<le> length haystack"
  shows "fast_memcmp bo (drop i haystack) needle (length needle) = 0
     \<longleftrightarrow> occurs_at haystack needle i"
  using assms by (simp add: fast_memcmp_def word_loop_zero_iff occurs_at_nth)

lemma small_scan_none:
  assumes "\<forall>k. i \<le> k \<and> k \<le> length haystack - length needle \<longrightarrow>
      pack_loop haystack k (length needle) 0 0 \<noteq> np"
  shows "small_scan haystack needle np i = - 1"
  using assms
proof (induction haystack needle np i rule: small_scan.induct)
  case (1 haystack needle np i)
  show ?case
  proof (cases "i \<le> length haystack - length needle")
    case False
    then show ?thesis
      by (simp add: small_scan.simps [of haystack needle np i])
  next
    case True
    with "1.prems" have miss: "pack_loop haystack i (length needle) 0 0 \<noteq> np"
      by simp
    have "small_scan haystack needle np i = small_scan haystack needle np (i + 1)"
      using True miss by (simp add: small_scan.simps [of haystack needle np i])
    also have "\<dots> = - 1"
      using True miss "1.prems" by (intro "1.IH") simp_all
    finally show ?thesis .
  qed
qed

lemma small_scan_first:
  assumes "i \<le> j" "j \<le> length haystack - length needle"
    and "pack_loop haystack j (length needle) 0 0 = np"
    and "\<forall>k. i \<le> k \<and> k < j \<longrightarrow> pack_loop haystack k (length needle) 0 0 \<noteq> np"
  shows "small_scan haystack needle np i = of_nat j"
  using assms
proof (induction haystack needle np i rule: small_scan.induct)
  case (1 haystack needle np i)
  from "1.prems" have range: "i \<le> length haystack - length needle"
    by simp
  show ?case
  proof (cases "i = j")
    case True
    with range "1.prems" show ?thesis
      by (simp add: small_scan.simps [of haystack needle np j])
  next
    case False
    with "1.prems" have lt: "i < j" and miss: "pack_loop haystack i (length needle) 0 0 \<noteq> np"
      by simp_all
    have "small_scan haystack needle np i = small_scan haystack needle np (i + 1)"
      using range miss by (simp add: small_scan.simps [of haystack needle np i])
    also have "\<dots> = of_nat j"
      using range miss lt "1.prems" by (intro "1.IH") simp_all
    finally show ?thesis .
  qed
qed

lemma large_scan_none:
  assumes "\<forall>k. i \<le> k \<and> k \<le> length haystack - length needle \<longrightarrow>
      fast_memcmp bo (drop k haystack) needle (length needle) \<noteq> 0"
  shows "large_scan bo haystack needle i = - 1"
  using assms
proof (induction bo haystack needle i rule: large_scan.induct)
  case (1 bo haystack needle i)
  show ?case
  proof (cases "i \<le> length haystack - length needle")
    case False
    then show ?thesis
      by (simp add: large_scan.simps [of bo haystack needle i])
  next
    case True
    with "1.prems" have miss: "fast_memcmp bo (drop i haystack) needle (length needle) \<noteq> 0"
      by simp
    have "large_scan bo haystack needle i = large_scan bo haystack needle (i + 1)"
      using True miss by (simp add: large_scan.simps [of bo haystack needle i])
    also have "\<dots> = - 1"
      using True miss "1.prems" by (intro "1.IH") simp_all
    finally show ?thesis .
  qed
qed

lemma large_scan_first:
  assumes "i \<le> j" "j \<le> length haystack - length needle"
    and "fast_memcmp bo (drop j haystack) needle (length needle) = 0"
    and "\<forall>k. i \<le> k \<and> k < j \<longrightarrow> fast_memcmp bo (drop k haystack) needle (length needle) \<noteq> 0"
  shows "large_scan bo haystack needle i = of_nat j"
  using assms
proof (induction bo haystack needle i rule: large_scan.induct)
  case (1 bo haystack needle i)
  from "1.prems" have range: "i \<le> length haystack - length needle"
    by simp
  show ?case
  proof (cases "i = j")
    case True
    with range "1.prems" show ?thesis
      by (simp add: large_scan.simps [of bo haystack needle j])
  next
    case False
    with "1.prems" have lt: "i < j"
      and miss: "fast_memcmp bo (drop i haystack) needle (length needle) \<noteq> 0"
      by simp_all
    have "large_scan bo haystack needle i = large_scan bo haystack needle (i + 1)"
      using range miss by (simp add: large_scan.simps [of bo haystack needle i])
    also have "\<dots> = of_nat j"
      using range miss lt "1.prems" by (intro "1.IH") simp_all
    finally show ?thesis .
  qed
qed

lemma find_pattern_none:
  assumes "needle \<noteq> []" "length needle \<le> length haystack"
    and "\<forall>i. \<not> occurs_at haystack needle i"
  shows "find_pattern bo haystack needle = - 1"
proof (cases "length needle \<le> 8")
  case True
  have "\<forall>k. 0 \<le> k \<and> k \<le> length haystack - length needle \<longrightarrow>
      pack_loop haystack k (length needle) 0 0 \<noteq> pack_loop needle 0 (length needle) 0 0"
    using assms True by (simp add: small_test_iff)
  then show ?thesis
    using assms True by (simp add: find_pattern_def small_scan_none)
next
  case False
  have "\<forall>k. 0 \<le> k \<and> k \<le> length haystack - length needle \<longrightarrow>
      fast_memcmp bo (drop k haystack) needle (length needle) \<noteq> 0"
    using assms by (simp add: large_test_iff)
  then show ?thesis
    using assms False by (simp add: find_pattern_def large_scan_none)
qed

lemma find_pattern_first:
  assumes "needle \<noteq> []" "length needle \<le> length haystack"
    and "occurs_at haystack needle j" "\<forall>k<j. \<not> occurs_at haystack needle k"
  shows "find_pattern bo haystack needle = of_nat j"
proof -
  from assms(3) have "j + length needle \<le> length haystack"
    by (simp add: occurs_at_def)
  then have j: "j \<le> length haystack - length needle"
    by simp
  show ?thesis
  proof (cases "length needle \<le> 8")
    case True
    have "pack_loop haystack j (length needle) 0 0 = pack_loop needle 0 (length needle) 0 0"
      using assms j True by (simp add: small_test_iff)
    moreover have "\<forall>k. 0 \<le> k \<and> k < j \<longrightarrow>
        pack_loop haystack k (length needle) 0 0 \<noteq> pack_loop needle 0 (length needle) 0 0"
      using assms j True by (simp add: small_test_iff)
    ultimately have "small_scan haystack needle (pack_loop needle 0 (length needle) 0 0) 0 = of_nat j"
      using j by (intro small_scan_first) simp_all
    then show ?thesis
      using assms True by (simp add: find_pattern_def)
  next
    case False
    have "fast_memcmp bo (drop j haystack) needle (length needle) = 0"
      using assms j by (simp add: large_test_iff)
    moreover have "\<forall>k. 0 \<le> k \<and> k < j \<longrightarrow>
        fast_memcmp bo (drop k haystack) needle (length needle) \<noteq> 0"
      using assms j by (simp add: large_test_iff)
    ultimately have "large_scan bo haystack needle 0 = of_nat j"
      using j by (intro large_scan_first) simp_all
    then show ?thesis
      using assms False by (simp add: find_pattern_def)
  qed
qed

text \<open>
  C3: leftmost match. For every haystack (of a length that fits \<^verbatim>\<open>size_t\<close>) and every
  non-empty needle no longer than the haystack, on either byte order: if the needle
  occurs in the haystack, \<open>find_pattern\<close> returns the smallest offset at which it
  occurs, which differs from the sentinel \<^verbatim>\<open>(size_t)-1\<close>; if it occurs nowhere,
  \<open>find_pattern\<close> returns the sentinel. This covers the packed path (needle length at
  most 8) and the comparator path (longer needles).
\<close>

theorem find_pattern_leftmost:
  assumes "needle \<noteq> []" and "length needle \<le> length haystack"
    and "length haystack < 2 ^ 32"
  shows "((\<exists>i. occurs_at haystack needle i) \<longrightarrow>
            find_pattern bo haystack needle \<noteq> - 1
            \<and> unat (find_pattern bo haystack needle) = (LEAST i. occurs_at haystack needle i))
       \<and> ((\<nexists>i. occurs_at haystack needle i) \<longrightarrow> find_pattern bo haystack needle = - 1)"
proof (intro conjI impI)
  assume ex: "\<exists>i. occurs_at haystack needle i"
  define j where "j = (LEAST i. occurs_at haystack needle i)"
  have occ: "occurs_at haystack needle j"
    unfolding j_def using ex by (rule LeastI_ex)
  have first: "\<forall>k<j. \<not> occurs_at haystack needle k"
    unfolding j_def using not_less_Least by blast
  have found: "find_pattern bo haystack needle = of_nat j"
    using assms(1,2) occ first by (rule find_pattern_first)
  from occ have "j + length needle \<le> length haystack"
    by (simp add: occurs_at_def)
  moreover from assms(1) have "1 \<le> length needle"
    by (cases needle) simp_all
  moreover from assms(3) have "length haystack < 4294967296"
    by simp
  ultimately have "j < 4294967295"
    by linarith
  then have bound: "j < 2 ^ 32 - 1"
    by simp
  then have roundtrip: "unat (of_nat j :: size_t) = j"
    by (simp add: unat_of_nat)
  from roundtrip show "unat (find_pattern bo haystack needle) = (LEAST i. occurs_at haystack needle i)"
    by (simp add: found j_def)
  show "find_pattern bo haystack needle \<noteq> - 1"
  proof
    assume "find_pattern bo haystack needle = - 1"
    then have "unat (of_nat j :: size_t) = unat (- 1 :: size_t)"
      by (simp add: found)
    with roundtrip bound show False
      by (simp add: unsigned_minus_1_eq_mask mask_eq_exp_minus_1)
  qed
next
  assume "\<nexists>i. occurs_at haystack needle i"
  then show "find_pattern bo haystack needle = - 1"
    using assms(1,2) by (intro find_pattern_none) simp_all
qed

theorem find_pattern_leftmost_witness:
  "(bytes_of ''a'' \<noteq> [] \<and> length (bytes_of ''a'') \<le> length (bytes_of ''aXaXa'')
      \<and> length (bytes_of ''aXaXa'') < 2 ^ 32)
   \<and> occurs_at (bytes_of ''aXaXa'') (bytes_of ''a'') 2
   \<and> find_pattern LittleEndian (bytes_of ''aXaXa'') (bytes_of ''a'') = 0
   \<and> find_pattern LittleEndian (bytes_of ''hello world'') (bytes_of ''world'') = 6
   \<and> find_pattern LittleEndian (bytes_of ''a hello wonderful world'')
        (bytes_of ''hello wonderful'') = 2
   \<and> find_pattern LittleEndian (bytes_of ''hello'') (bytes_of ''xyz'') = - 1"
proof -
  let ?h = "bytes_of ''aXaXa''" and ?n = "bytes_of ''a''"
  have hyp: "?n \<noteq> []" "length ?n \<le> length ?h" "length ?h < 2 ^ 32"
    by (simp_all add: bytes_of_def)
  have occ0: "occurs_at ?h ?n 0" and occ2: "occurs_at ?h ?n 2"
    by (simp_all add: occurs_at_def bytes_of_def)
  then have least: "(LEAST i. occurs_at ?h ?n i) = 0"
    by (intro Least_equality) simp_all
  from occ0 have "\<exists>i. occurs_at ?h ?n i" ..
  with find_pattern_leftmost [OF hyp, of LittleEndian] least
  have "unat (find_pattern LittleEndian ?h ?n) = 0"
    by simp
  then have first: "find_pattern LittleEndian ?h ?n = 0"
    by (simp add: unat_eq_zero)
  have rest: "find_pattern LittleEndian (bytes_of ''hello world'') (bytes_of ''world'') = 6"
    "find_pattern LittleEndian (bytes_of ''a hello wonderful world'')
        (bytes_of ''hello wonderful'') = 2"
    "find_pattern LittleEndian (bytes_of ''hello'') (bytes_of ''xyz'') = - 1"
    by (simp_all add: find_pattern_def small_scan.simps large_scan.simps pack_loop.simps
        fast_memcmp_def word_loop.simps byte_loop.simps load_u64_def bytes_of_def)
  from hyp occ2 first rest show ?thesis
    by simp
qed

text \<open>
  C4: for every haystack, the search with an empty needle returns the sentinel
  \<^verbatim>\<open>(size_t)-1\<close>, and the search with a needle longer than the haystack returns the
  sentinel.
\<close>

theorem find_pattern_empty_or_oversized:
  "find_pattern bo haystack [] = - 1
   \<and> (length haystack < length needle \<longrightarrow> find_pattern bo haystack needle = - 1)"
  by (simp add: find_pattern_def)

theorem find_pattern_empty_or_oversized_witness:
  "length (bytes_of ''aa'') < length (bytes_of ''aaa'')
   \<and> find_pattern LittleEndian (bytes_of ''abc'') (bytes_of '''') = - 1
   \<and> find_pattern LittleEndian (bytes_of ''aa'') (bytes_of ''aaa'') = - 1"
proof -
  have "length (bytes_of ''aa'') < length (bytes_of ''aaa'')"
    by (simp add: bytes_of_def)
  moreover have "bytes_of '''' = []"
    by (simp add: bytes_of_def)
  ultimately show ?thesis
    using find_pattern_empty_or_oversized [of LittleEndian "bytes_of ''abc''" "bytes_of ''aaa''"]
      find_pattern_empty_or_oversized [of LittleEndian "bytes_of ''aa''" "bytes_of ''aaa''"]
    by simp
qed

section \<open>Properties of the entropy estimator\<close>

lemma count_loop_length:
  "length (fst (count_loop data counts u)) = length counts"
  by (induction data arbitrary: counts u) simp_all

lemma count_loop_nth:
  assumes "length counts = 256"
  shows "fst (count_loop data counts u) ! unat v = counts ! unat v + of_nat (count_list data v)"
  using assms
proof (induction data arbitrary: counts u)
  case Nil
  show ?case by simp
next
  case (Cons b bs)
  let ?counts = "counts[unat b := counts ! unat b + 1]"
  have idx: "unat b < 256" "unat v < 256"
    using unsigned_less [of b] unsigned_less [of v] by simp_all
  have "fst (count_loop (b # bs) counts u) ! unat v
      = ?counts ! unat v + of_nat (count_list bs v)"
    using Cons.prems by (simp add: Cons.IH)
  also have "?counts ! unat v = (if b = v then counts ! unat v + 1 else counts ! unat v)"
    using Cons.prems idx by (auto simp add: nth_list_update word_unat_eq_iff)
  finally show ?case
    by simp
qed

lemma byte_counts_nth: "byte_counts data ! unat v = of_nat (count_list data v)"
proof -
  have "unat v < 256"
    using unsigned_less [of v] by simp
  then show ?thesis
    by (simp add: byte_counts_def count_loop_nth)
qed

text \<open>
  C10: the histogram counters are 32-bit and count modulo \<open>2^32\<close>: after the counting
  loop the counter of byte value \<open>v\<close> holds the number of occurrences of \<open>v\<close> modulo
  \<open>2^32\<close>. For every buffer shorter than \<open>2^32\<close> bytes it is the true number of
  occurrences; without that bound it need not be: over \<open>2^32\<close> copies of one byte the
  counter is \<open>0\<close>.
\<close>

theorem byte_counts_modulo:
  "unat (byte_counts data ! unat v) = count_list data v mod 2 ^ 32
   \<and> (length data < 2 ^ 32 \<longrightarrow> unat (byte_counts data ! unat v) = count_list data v)
   \<and> unat (byte_counts (replicate (2 ^ 32) v) ! unat v) = 0"
proof (intro conjI impI)
  show modulo: "unat (byte_counts data ! unat v) = count_list data v mod 2 ^ 32" for data
    by (simp add: byte_counts_nth unat_of_nat)
  show "unat (byte_counts data ! unat v) = count_list data v" if "length data < 2 ^ 32"
  proof -
    have "count_list data v \<le> length data"
      by (rule count_le_length)
    with that show ?thesis
      by (simp add: modulo)
  qed
  have "count_list (replicate n v) v = n" for n
    by (induction n) simp_all
  then show "unat (byte_counts (replicate (2 ^ 32) v) ! unat v) = 0"
    by (simp add: modulo)
qed

theorem byte_counts_modulo_witness:
  "length (bytes_of ''aab'') < 2 ^ 32
   \<and> unat (byte_counts (bytes_of ''aab'') ! unat (97 :: uint8_t)) = 2
   \<and> count_list (bytes_of ''aab'') 97 = 2"
proof -
  have len: "length (bytes_of ''aab'') < 2 ^ 32"
    by (simp add: bytes_of_def)
  have "count_list (bytes_of ''aab'') 97 = 2"
    by (simp add: bytes_of_def)
  with byte_counts_modulo [of "bytes_of ''aab''" 97] len show ?thesis
    by simp
qed

subsection \<open>The reference entropy lies in \<open>[0, 8]\<close>\<close>

lemma count_list_sum: "(\<Sum>k = 0..<256. count_list data (of_nat k :: uint8_t)) = length data"
proof (induction data)
  case Nil
  show ?case by simp
next
  case (Cons b bs)
  have idx: "unat b \<in> {0..<256}"
    using unsigned_less [of b] by simp
  have "(\<Sum>k = 0..<256. count_list (b # bs) (of_nat k :: uint8_t))
      = (\<Sum>k = 0..<256. count_list bs (of_nat k :: uint8_t) + (if k = unat b then 1 else 0))"
  proof (rule sum.cong)
    fix k :: nat assume "k \<in> {0..<256}"
    then have "b = of_nat k \<longleftrightarrow> k = unat b"
      by (auto simp add: unat_of_nat)
    then show "count_list (b # bs) (of_nat k :: uint8_t)
        = count_list bs (of_nat k :: uint8_t) + (if k = unat b then 1 else 0)"
      by simp
  qed simp
  also have "\<dots> = length bs + 1"
    using idx by (simp add: sum.distrib Cons.IH)
  finally show ?case
    by simp
qed


lemma plogp_bounds:
  fixes p :: real
  assumes "0 < p" "p \<le> 1"
  shows "0 \<le> - (p * log 2 p)" and "- (p * log 2 p) \<le> 8 * p + (1 / 256 - p) / ln 2"
proof -
  have ln2: "0 < ln (2 :: real)"
    by simp
  from assms have "ln p \<le> 0"
    by simp
  then have "log 2 p \<le> 0"
    using ln2 by (simp add: log_def divide_le_0_iff)
  with assms(1) show "0 \<le> - (p * log 2 p)"
    by (simp add: mult_le_0_iff)
  have "ln (1 / (256 * p)) \<le> 1 / (256 * p) - 1"
    using assms(1) by (intro ln_le_minus_one) simp
  moreover have "ln (1 / (256 * p)) = - (8 * ln 2) - ln p"
  proof -
    have "ln ((2 :: real) ^ 8) = real 8 * ln 2"
      by (rule ln_realpow)
    then have "ln (256 :: real) = 8 * ln 2"
      by simp
    then show ?thesis
      using assms(1) by (simp add: ln_div ln_mult)
  qed
  ultimately have "- ln p \<le> 8 * ln 2 + 1 / (256 * p) - 1"
    by simp
  then have "p * (- ln p) \<le> p * (8 * ln 2 + 1 / (256 * p) - 1)"
    using assms(1) by (intro mult_left_mono) simp_all
  also have "\<dots> = 8 * p * ln 2 + (1 / 256 - p)"
    using assms(1) by (simp add: field_simps)
  finally have "p * (- ln p) \<le> 8 * p * ln 2 + (1 / 256 - p)" .
  then have "p * (- ln p) / ln 2 \<le> (8 * p * ln 2 + (1 / 256 - p)) / ln 2"
    using ln2 by (intro divide_right_mono) simp_all
  also have "\<dots> = 8 * p + (1 / 256 - p) / ln 2"
    using ln2 by (simp add: field_simps)
  finally show "- (p * log 2 p) \<le> 8 * p + (1 / 256 - p) / ln 2"
    by (simp add: log_def)
qed

lemma frequency_sum:
  assumes "data \<noteq> []"
  shows "(\<Sum>k = 0..<256. frequency data (of_nat k)) = 1"
proof -
  have "(\<Sum>k = 0..<256. frequency data (of_nat k))
      = real (\<Sum>k = 0..<256. count_list data (of_nat k :: uint8_t)) / real (length data)"
    by (simp add: frequency_def sum_divide_distrib)
  also have "\<dots> = real (length data) / real (length data)"
    by (simp only: count_list_sum)
  also have "\<dots> = 1"
    using assms by simp
  finally show ?thesis .
qed

lemma frequency_range: "0 \<le> frequency data v" "frequency data v \<le> 1"
proof -
  show "0 \<le> frequency data v"
    by (simp add: frequency_def)
  have "real (count_list data v) \<le> real (length data)"
    by (simp only: of_nat_le_iff count_le_length)
  then show "frequency data v \<le> 1"
    by (cases "data = []") (simp_all add: frequency_def)
qed

lemma entropy_reference_range:
  "0 \<le> entropy_reference data \<and> entropy_reference data \<le> 8"
proof (cases "data = []")
  case True
  then show ?thesis
    by (simp add: entropy_reference_def)
next
  case False
  let ?p = "\<lambda>k. frequency data (of_nat k)"
  let ?t = "\<lambda>k. if 0 < ?p k then ?p k * log 2 (?p k) else 0"
  have value_eq: "entropy_reference data = (\<Sum>k = 0..<256. - ?t k)"
    using False by (simp add: entropy_reference_def sum_negf)
  have term_lower: "0 \<le> - ?t k" for k
    using plogp_bounds(1) [of "?p k"] frequency_range(2) [of data "of_nat k"] by simp
  have term_upper: "- ?t k \<le> 8 * ?p k + (1 / 256 - ?p k) / ln 2" for k
  proof (cases "0 < ?p k")
    case True
    then show ?thesis
      using plogp_bounds(2) [of "?p k"] frequency_range(2) [of data "of_nat k"] by simp
  next
    case False
    then have "?p k = 0"
      using frequency_range(1) [of data "of_nat k"] by simp
    then show ?thesis
      by simp
  qed
  have lower: "0 \<le> (\<Sum>k = 0..<256. - ?t k)"
    by (intro sum_nonneg term_lower)
  have "(\<Sum>k = 0..<256. - ?t k) \<le> (\<Sum>k = 0..<256. 8 * ?p k + (1 / 256 - ?p k) / ln 2)"
    by (intro sum_mono term_upper)
  also have "\<dots> = 8 * (\<Sum>k = 0..<256. ?p k) + (1 - (\<Sum>k = 0..<256. ?p k)) / ln 2"
    by (simp add: sum.distrib sum_distrib_left sum_subtractf diff_divide_distrib
        flip: sum_divide_distrib)
  also have "\<dots> = 8"
    using False by (simp add: frequency_sum)
  finally show ?thesis
    using lower by (simp add: value_eq)
qed

subsection \<open>Rounding to binary64\<close>

lemma binade_eqI:
  assumes "2 powi e \<le> \<bar>x\<bar>" "\<bar>x\<bar> < 2 powi (e + 1)" "- 1022 \<le> e"
  shows "binade x = e"
proof -
  have pos: "0 < \<bar>x\<bar>"
    using assms(1) by (smt (verit) zero_less_power_int)
  have p1: "2 powr real_of_int e = (2 :: real) powi e"
    by (rule powr_real_of_int') simp_all
  have p2: "2 powr real_of_int (e + 1) = (2 :: real) powi (e + 1)"
    by (rule powr_real_of_int') simp_all
  have "2 powr real_of_int e \<le> \<bar>x\<bar> \<and> \<bar>x\<bar> < 2 powr real_of_int (e + 1)"
    unfolding p1 p2 using assms(1,2) by (rule conjI)
  moreover have "(1 :: real) < 2"
    by simp
  ultimately have "\<lfloor>log 2 \<bar>x\<bar>\<rfloor> = e"
    using pos by (simp only: floor_log_eq_powr_iff)
  with assms(3) show ?thesis
    by (simp add: binade_def)
qed

lemma binary64_eval:
  assumes "2 powi e \<le> \<bar>x\<bar>" "\<bar>x\<bar> < 2 powi (e + 1)" "- 1022 \<le> e"
  shows "binary64 x = of_int (round_half_even (x * 2 powi (52 - e))) * 2 powi (e - 52)"
proof -
  have "x \<noteq> 0"
    using assms(1) by (smt (verit) zero_less_power_int)
  then show ?thesis
    by (simp add: binary64_def binade_eqI [OF assms])
qed

lemma round_half_even_eqI:
  assumes "of_int m - 1 / 2 < x" "x < of_int m + 1 / 2"
  shows "round_half_even x = m"
proof (cases "x < of_int m")
  case True
  with assms have "\<lfloor>x\<rfloor> = m - 1"
    by (simp add: floor_eq_iff)
  with assms True show ?thesis
    by (simp add: round_half_even_def)
next
  case False
  with assms have "\<lfloor>x\<rfloor> = m"
    by (simp add: floor_eq_iff)
  with assms False show ?thesis
    by (simp add: round_half_even_def)
qed

lemma binary64_at:
  assumes "2 powi e \<le> \<bar>x\<bar>" "- 1022 \<le> e" "\<bar>x\<bar> < 2 powi (e + 1)"
  shows "binary64 x = round_at e x"
  unfolding round_at_def using assms by (intro binary64_eval) simp_all

subsection \<open>Bounds on logarithms\<close>

text \<open>
  The correctly rounded \<open>log\<^sub>2\<close> of the two probabilities of the near-uniform buffer.
  Partial sums of the exponential series bound \<open>exp\<close>, hence \<open>ln 2\<close> and the logarithms
  of two numbers next to \<open>1\<close>, closely enough to fix the nearest binary64 value.
\<close>

lemma exp_ge_partial:
  fixes x :: real
  assumes "even n \<or> 0 \<le> x"
  shows "(\<Sum>m<n. x ^ m / fact m) \<le> exp x"
proof -
  obtain t where "exp x = (\<Sum>m<n. x ^ m / fact m) + (exp t / fact n) * x ^ n"
    using Maclaurin_exp_le [of x n] by blast
  moreover have "0 \<le> x ^ n"
    using assms by (auto simp add: zero_le_power_eq)
  then have "0 \<le> (exp t / fact n) * x ^ n"
    by simp
  ultimately show ?thesis
    by simp
qed

lemma exp_le_partial:
  fixes x :: real
  assumes "\<bar>x\<bar> \<le> 1"
  shows "exp x \<le> (\<Sum>m<n. x ^ m / fact m) + 3 * \<bar>x\<bar> ^ n / fact n"
proof -
  obtain t where t: "\<bar>t\<bar> \<le> \<bar>x\<bar>"
    and eq: "exp x = (\<Sum>m<n. x ^ m / fact m) + (exp t / fact n) * x ^ n"
    using Maclaurin_exp_le [of x n] by blast
  have "exp t \<le> exp 1"
    using t assms by simp
  also have "\<dots> \<le> 3"
    by (rule exp_le)
  finally have "exp t \<le> 3" .
  have "(exp t / fact n) * x ^ n \<le> \<bar>(exp t / fact n) * x ^ n\<bar>"
    by (rule abs_ge_self)
  also have "\<dots> = exp t * \<bar>x\<bar> ^ n / fact n"
    by (simp add: abs_mult power_abs)
  also have "\<dots> \<le> 3 * \<bar>x\<bar> ^ n / fact n"
    using \<open>exp t \<le> 3\<close> by (intro divide_right_mono mult_right_mono) simp_all
  finally show ?thesis
    using eq by simp
qed


lemma ln_lowerI:
  fixes u v :: real
  assumes "0 < v" "exp u \<le> v"
  shows "u \<le> ln v"
proof -
  have "ln (exp u) \<le> ln v"
    using assms by (intro ln_mono) simp_all
  then show ?thesis
    by simp
qed

lemma ln_upperI:
  fixes u v :: real
  assumes "0 < v" "v \<le> exp u"
  shows "ln v \<le> u"
proof -
  have "ln v \<le> ln (exp u)"
    using assms by (intro ln_mono) simp_all
  then show ?thesis
    by simp
qed


lemma horner_upper_step:
  fixes x u c v :: real
  assumes "x \<le> u" "0 \<le> c" "1 + c * u \<le> v"
  shows "1 + c * x \<le> v"
proof -
  have "c * x \<le> c * u"
    using assms(1,2) by (rule mult_left_mono)
  with assms(3) show ?thesis
    by simp
qed

lemma horner_lower_step:
  fixes x u c v :: real
  assumes "u \<le> x" "0 \<le> c" "v \<le> 1 + c * u"
  shows "v \<le> 1 + c * x"
proof -
  have "c * u \<le> c * x"
    using assms(1,2) by (rule mult_left_mono)
  with assms(3) show ?thesis
    by simp
qed

lemma exp_ln2_lower_horner:
  fixes a :: real
  assumes a: "a = 693147180559 / 1000000000000"
  shows "1 + a / 1 * (1 + a / 2 * (1 + a / 3 * (1 + a / 4 * (1 + a / 5 * (1 + a / 6 * (1 + a / 7 * (1 + a / 8 * (1 + a / 9 * (1 + a / 10 * (1 + a / 11 * (1 + a / 12 * (1 + a / 13 * (1 + a / 14 * (1 + a / 15 * (1 + a / 16 * 3))))))))))))))) \<le> 199999999999811 / 100000000000000"
proof -
  have b16: "1 + a / 16 * 3 \<le> 1129965096354813 / 1000000000000000"
    by (simp add: a)
  have b15: "1 + a / 15 * (1 + a / 16 * 3) \<le> 263053868677807 / 250000000000000"
    by (rule horner_upper_step [OF b16]) (simp_all add: a)
  have b14: "1 + a / 14 * (1 + a / 15 * (1 + a / 16 * 3)) \<le> 1052095727831189 / 1000000000000000"
    by (rule horner_upper_step [OF b15]) (simp_all add: a)
  have b13: "1 + a / 13 * (1 + a / 14 * (1 + a / 15 * (1 + a / 16 * 3))) \<le> 1056096706724951 / 1000000000000000"
    by (rule horner_upper_step [OF b14]) (simp_all add: a)
  have b12: "1 + a / 12 * (1 + a / 13 * (1 + a / 14 * (1 + a / 15 * (1 + a / 16 * 3)))) \<le> 1061002537888671 / 1000000000000000"
    by (rule horner_upper_step [OF b13]) (simp_all add: a)
  have b11: "1 + a / 11 * (1 + a / 12 * (1 + a / 13 * (1 + a / 14 * (1 + a / 15 * (1 + a / 16 * 3))))) \<le> 533428678077431 / 500000000000000"
    by (rule horner_upper_step [OF b12]) (simp_all add: a)
  have b10: "1 + a / 10 * (1 + a / 11 * (1 + a / 12 * (1 + a / 13 * (1 + a / 14 * (1 + a / 15 * (1 + a / 16 * 3)))))) \<le> 536974458423869 / 500000000000000"
    by (rule horner_upper_step [OF b11]) (simp_all add: a)
  have b9: "1 + a / 9 * (1 + a / 10 * (1 + a / 11 * (1 + a / 12 * (1 + a / 13 * (1 + a / 14 * (1 + a / 15 * (1 + a / 16 * 3))))))) \<le> 1082711629308601 / 1000000000000000"
    by (rule horner_upper_step [OF b10]) (simp_all add: a)
  have b8: "1 + a / 8 * (1 + a / 9 * (1 + a / 10 * (1 + a / 11 * (1 + a / 12 * (1 + a / 13 * (1 + a / 14 * (1 + a / 15 * (1 + a / 16 * 3)))))))) \<le> 1093809814151713 / 1000000000000000"
    by (rule horner_upper_step [OF b9]) (simp_all add: a)
  have b7: "1 + a / 7 * (1 + a / 8 * (1 + a / 9 * (1 + a / 10 * (1 + a / 11 * (1 + a / 12 * (1 + a / 13 * (1 + a / 14 * (1 + a / 15 * (1 + a / 16 * 3))))))))) \<le> 277077542455251 / 250000000000000"
    by (rule horner_upper_step [OF b8]) (simp_all add: a)
  have b6: "1 + a / 6 * (1 + a / 7 * (1 + a / 8 * (1 + a / 9 * (1 + a / 10 * (1 + a / 11 * (1 + a / 12 * (1 + a / 13 * (1 + a / 14 * (1 + a / 15 * (1 + a / 16 * 3)))))))))) \<le> 22560740231321 / 20000000000000"
    by (rule horner_upper_step [OF b7]) (simp_all add: a)
  have b5: "1 + a / 5 * (1 + a / 6 * (1 + a / 7 * (1 + a / 8 * (1 + a / 9 * (1 + a / 10 * (1 + a / 11 * (1 + a / 12 * (1 + a / 13 * (1 + a / 14 * (1 + a / 15 * (1 + a / 16 * 3))))))))))) \<le> 578189567413321 / 500000000000000"
    by (rule horner_upper_step [OF b6]) (simp_all add: a)
  have b4: "1 + a / 4 * (1 + a / 5 * (1 + a / 6 * (1 + a / 7 * (1 + a / 8 * (1 + a / 9 * (1 + a / 10 * (1 + a / 11 * (1 + a / 12 * (1 + a / 13 * (1 + a / 14 * (1 + a / 15 * (1 + a / 16 * 3)))))))))))) \<le> 600192617120293 / 500000000000000"
    by (rule horner_upper_step [OF b5]) (simp_all add: a)
  have b3: "1 + a / 3 * (1 + a / 4 * (1 + a / 5 * (1 + a / 6 * (1 + a / 7 * (1 + a / 8 * (1 + a / 9 * (1 + a / 10 * (1 + a / 11 * (1 + a / 12 * (1 + a / 13 * (1 + a / 14 * (1 + a / 15 * (1 + a / 16 * 3))))))))))))) \<le> 1277347880232839 / 1000000000000000"
    by (rule horner_upper_step [OF b4]) (simp_all add: a)
  have b2: "1 + a / 2 * (1 + a / 3 * (1 + a / 4 * (1 + a / 5 * (1 + a / 6 * (1 + a / 7 * (1 + a / 8 * (1 + a / 9 * (1 + a / 10 * (1 + a / 11 * (1 + a / 12 * (1 + a / 13 * (1 + a / 14 * (1 + a / 15 * (1 + a / 16 * 3)))))))))))))) \<le> 360673760222051 / 250000000000000"
    by (rule horner_upper_step [OF b3]) (simp_all add: a)
  have b1: "1 + a / 1 * (1 + a / 2 * (1 + a / 3 * (1 + a / 4 * (1 + a / 5 * (1 + a / 6 * (1 + a / 7 * (1 + a / 8 * (1 + a / 9 * (1 + a / 10 * (1 + a / 11 * (1 + a / 12 * (1 + a / 13 * (1 + a / 14 * (1 + a / 15 * (1 + a / 16 * 3))))))))))))))) \<le> 199999999999811 / 100000000000000"
    by (rule horner_upper_step [OF b2]) (simp_all add: a)
  show ?thesis
    by (rule b1)
qed

lemma exp_ln2_upper_horner:
  fixes a :: real
  assumes a: "a = 693147180561 / 1000000000000"
  shows "2000000000002109 / 1000000000000000 \<le> 1 + a / 1 * (1 + a / 2 * (1 + a / 3 * (1 + a / 4 * (1 + a / 5 * (1 + a / 6 * (1 + a / 7 * (1 + a / 8 * (1 + a / 9 * (1 + a / 10 * (1 + a / 11 * (1 + a / 12 * (1 + a / 13 * (1 + a / 14 * (1 + a / 15 * 1))))))))))))))"
proof -
  have b15: "5231049060187 / 5000000000000 \<le> 1 + a / 15 * 1"
    by (simp add: a)
  have b14: "1051798384392069 / 1000000000000000 \<le> 1 + a / 14 * (1 + a / 15 * 1)"
    by (rule horner_lower_step [OF b15]) (simp_all add: a)
  have b13: "132010106583269 / 125000000000000 \<le> 1 + a / 13 * (1 + a / 14 * (1 + a / 15 * 1))"
    by (rule horner_lower_step [OF b14]) (simp_all add: a)
  have b12: "424400648849 / 400000000000 \<le> 1 + a / 12 * (1 + a / 13 * (1 + a / 14 * (1 + a / 15 * 1)))"
    by (rule horner_lower_step [OF b13]) (simp_all add: a)
  have b11: "266714324612383 / 250000000000000 \<le> 1 + a / 11 * (1 + a / 12 * (1 + a / 13 * (1 + a / 14 * (1 + a / 15 * 1))))"
    by (rule horner_lower_step [OF b12]) (simp_all add: a)
  have b10: "1073948912848121 / 1000000000000000 \<le> 1 + a / 10 * (1 + a / 11 * (1 + a / 12 * (1 + a / 13 * (1 + a / 14 * (1 + a / 15 * 1)))))"
    by (rule horner_lower_step [OF b11]) (simp_all add: a)
  have b9: "541355814500401 / 500000000000000 \<le> 1 + a / 9 * (1 + a / 10 * (1 + a / 11 * (1 + a / 12 * (1 + a / 13 * (1 + a / 14 * (1 + a / 15 * 1))))))"
    by (rule horner_lower_step [OF b10]) (simp_all add: a)
  have b8: "546904907062657 / 500000000000000 \<le> 1 + a / 8 * (1 + a / 9 * (1 + a / 10 * (1 + a / 11 * (1 + a / 12 * (1 + a / 13 * (1 + a / 14 * (1 + a / 15 * 1)))))))"
    by (rule horner_lower_step [OF b9]) (simp_all add: a)
  have b7: "1108310169818701 / 1000000000000000 \<le> 1 + a / 7 * (1 + a / 8 * (1 + a / 9 * (1 + a / 10 * (1 + a / 11 * (1 + a / 12 * (1 + a / 13 * (1 + a / 14 * (1 + a / 15 * 1))))))))"
    by (rule horner_lower_step [OF b8]) (simp_all add: a)
  have b6: "141004626445769 / 125000000000000 \<le> 1 + a / 6 * (1 + a / 7 * (1 + a / 8 * (1 + a / 9 * (1 + a / 10 * (1 + a / 11 * (1 + a / 12 * (1 + a / 13 * (1 + a / 14 * (1 + a / 15 * 1)))))))))"
    by (rule horner_lower_step [OF b7]) (simp_all add: a)
  have b5: "578189567413553 / 500000000000000 \<le> 1 + a / 5 * (1 + a / 6 * (1 + a / 7 * (1 + a / 8 * (1 + a / 9 * (1 + a / 10 * (1 + a / 11 * (1 + a / 12 * (1 + a / 13 * (1 + a / 14 * (1 + a / 15 * 1))))))))))"
    by (rule horner_lower_step [OF b6]) (simp_all add: a)
  have b4: "300096308560311 / 250000000000000 \<le> 1 + a / 4 * (1 + a / 5 * (1 + a / 6 * (1 + a / 7 * (1 + a / 8 * (1 + a / 9 * (1 + a / 10 * (1 + a / 11 * (1 + a / 12 * (1 + a / 13 * (1 + a / 14 * (1 + a / 15 * 1)))))))))))"
    by (rule horner_lower_step [OF b5]) (simp_all add: a)
  have b3: "1277347880233791 / 1000000000000000 \<le> 1 + a / 3 * (1 + a / 4 * (1 + a / 5 * (1 + a / 6 * (1 + a / 7 * (1 + a / 8 * (1 + a / 9 * (1 + a / 10 * (1 + a / 11 * (1 + a / 12 * (1 + a / 13 * (1 + a / 14 * (1 + a / 15 * 1))))))))))))"
    by (rule horner_lower_step [OF b4]) (simp_all add: a)
  have b2: "1442695040889811 / 1000000000000000 \<le> 1 + a / 2 * (1 + a / 3 * (1 + a / 4 * (1 + a / 5 * (1 + a / 6 * (1 + a / 7 * (1 + a / 8 * (1 + a / 9 * (1 + a / 10 * (1 + a / 11 * (1 + a / 12 * (1 + a / 13 * (1 + a / 14 * (1 + a / 15 * 1)))))))))))))"
    by (rule horner_lower_step [OF b3]) (simp_all add: a)
  have b1: "2000000000002109 / 1000000000000000 \<le> 1 + a / 1 * (1 + a / 2 * (1 + a / 3 * (1 + a / 4 * (1 + a / 5 * (1 + a / 6 * (1 + a / 7 * (1 + a / 8 * (1 + a / 9 * (1 + a / 10 * (1 + a / 11 * (1 + a / 12 * (1 + a / 13 * (1 + a / 14 * (1 + a / 15 * 1))))))))))))))"
    by (rule horner_lower_step [OF b2]) (simp_all add: a)
  show ?thesis
    by (rule b1)
qed

lemma exp_series_16_upper:
  fixes a :: real
  assumes "0 \<le> a"
  shows "(\<Sum>m<16. a ^ m / fact m) + 3 * \<bar>a\<bar> ^ 16 / fact 16 = 1 + a / 1 * (1 + a / 2 * (1 + a / 3 * (1 + a / 4 * (1 + a / 5 * (1 + a / 6 * (1 + a / 7 * (1 + a / 8 * (1 + a / 9 * (1 + a / 10 * (1 + a / 11 * (1 + a / 12 * (1 + a / 13 * (1 + a / 14 * (1 + a / 15 * (1 + a / 16 * 3)))))))))))))))"
  using assms by (simp add: lessThan_nat_numeral fact_numeral power_numeral_reduce field_simps)

lemma exp_series_16_lower:
  fixes a :: real
  shows "(\<Sum>m<16. a ^ m / fact m) = 1 + a / 1 * (1 + a / 2 * (1 + a / 3 * (1 + a / 4 * (1 + a / 5 * (1 + a / 6 * (1 + a / 7 * (1 + a / 8 * (1 + a / 9 * (1 + a / 10 * (1 + a / 11 * (1 + a / 12 * (1 + a / 13 * (1 + a / 14 * (1 + a / 15 * 1))))))))))))))"
  by (simp add: lessThan_nat_numeral fact_numeral power_numeral_reduce field_simps)

lemma ln_2_bounds:
  "693147180559 / 10 ^ 12 \<le> ln (2 :: real)"
  "ln (2 :: real) \<le> 693147180561 / 10 ^ 12"
proof -
  define a :: real where "a = 693147180559 / 1000000000000"
  have "exp a \<le> (\<Sum>m<16. a ^ m / fact m) + 3 * \<bar>a\<bar> ^ 16 / fact 16"
    by (rule exp_le_partial) (simp add: a_def)
  also have "\<dots> = 1 + a / 1 * (1 + a / 2 * (1 + a / 3 * (1 + a / 4 * (1 + a / 5 * (1 + a / 6 * (1 + a / 7 * (1 + a / 8 * (1 + a / 9 * (1 + a / 10 * (1 + a / 11 * (1 + a / 12 * (1 + a / 13 * (1 + a / 14 * (1 + a / 15 * (1 + a / 16 * 3)))))))))))))))"
    by (rule exp_series_16_upper) (simp add: a_def)
  also have "\<dots> \<le> 199999999999811 / 100000000000000"
    by (rule exp_ln2_lower_horner) (rule a_def)
  also have "\<dots> \<le> 2"
    by simp
  finally have "a \<le> ln 2"
    by (rule ln_lowerI [rotated]) simp
  then show "693147180559 / 10 ^ 12 \<le> ln (2 :: real)"
    by (simp add: a_def)
  define b :: real where "b = 693147180561 / 1000000000000"
  have "(2 :: real) \<le> 2000000000002109 / 1000000000000000"
    by simp
  also have "\<dots> \<le> 1 + b / 1 * (1 + b / 2 * (1 + b / 3 * (1 + b / 4 * (1 + b / 5 * (1 + b / 6 * (1 + b / 7 * (1 + b / 8 * (1 + b / 9 * (1 + b / 10 * (1 + b / 11 * (1 + b / 12 * (1 + b / 13 * (1 + b / 14 * (1 + b / 15 * 1))))))))))))))"
    by (rule exp_ln2_upper_horner) (rule b_def)
  also have "\<dots> = (\<Sum>m<16. b ^ m / fact m)"
    by (rule exp_series_16_lower [symmetric])
  also have "\<dots> \<le> exp b"
    by (rule exp_ge_partial) simp
  finally have "ln 2 \<le> b"
    by (rule ln_upperI [rotated]) simp
  then show "ln (2 :: real) \<le> 693147180561 / 10 ^ 12"
    by (simp add: b_def)
qed


lemma ln_scaled_p0:
  "4264182065428954291 / 10 ^ 24 \<le> ln (2251809415790101 / 2 ^ 51 :: real)"
  "ln (2251809415790101 / 2 ^ 51 :: real) \<le> 4264182065428956292 / 10 ^ 24"
proof -
  have below: "exp (4264182065428954291 / 10 ^ 24 :: real) \<le> 2251809415790101 / 2 ^ 51"
    by (rule order_trans [OF exp_le_partial [where n = 4]])
      (simp_all add: lessThan_nat_numeral fact_numeral power_divide)
  show "4264182065428954291 / 10 ^ 24 \<le> ln (2251809415790101 / 2 ^ 51 :: real)"
    by (rule ln_lowerI [OF _ below]) simp
  have above: "(2251809415790101 / 2 ^ 51 :: real) \<le> exp (4264182065428956292 / 10 ^ 24)"
    by (rule order_trans [OF _ exp_ge_partial [where n = 4]])
      (simp_all add: lessThan_nat_numeral fact_numeral power_divide)
  show "ln (2251809415790101 / 2 ^ 51 :: real) \<le> 4264182065428956292 / 10 ^ 24"
    by (rule ln_upperI [OF _ above]) simp
qed


lemma ln_scaled_p1:
  "- (16722318447668060 / 10 ^ 24) \<le> ln (9007199104119739 / 2 ^ 53 :: real)"
  "ln (9007199104119739 / 2 ^ 53 :: real) \<le> - (16722318447666059 / 10 ^ 24)"
proof -
  have below: "exp (- (16722318447668060 / 10 ^ 24) :: real) \<le> 9007199104119739 / 2 ^ 53"
    by (rule order_trans [OF exp_le_partial [where n = 4]])
      (simp_all add: lessThan_nat_numeral fact_numeral power_divide)
  show "- (16722318447668060 / 10 ^ 24) \<le> ln (9007199104119739 / 2 ^ 53 :: real)"
    by (rule ln_lowerI [OF _ below]) simp
  have above: "(9007199104119739 / 2 ^ 53 :: real) \<le> exp (- (16722318447666059 / 10 ^ 24))"
    by (rule order_trans [OF _ exp_ge_partial [where n = 4]])
      (simp_all add: lessThan_nat_numeral fact_numeral power_divide)
  show "ln (9007199104119739 / 2 ^ 53 :: real) \<le> - (16722318447666059 / 10 ^ 24)"
    by (rule ln_upperI [OF _ above]) simp
qed


lemma log2_p0_bounds:
  "(- 9007192328301233 - 1 / 2) / 2 ^ 50 < log 2 (2251809415790101 / 2 ^ 59)"
  "log 2 (2251809415790101 / 2 ^ 59) < (- 9007192328301233 + 1 / 2) / 2 ^ 50"
proof -
  let ?v = "2251809415790101 / 2 ^ 51 :: real"
  have ln2: "0 < ln (2 :: real)"
    by simp
  have "log 2 (2251809415790101 / 2 ^ 59) = log 2 (?v / 2 ^ 8)"
    by simp
  also have "\<dots> = log 2 ?v - log 2 (2 ^ 8)"
    by (rule log_divide_pos) simp_all
  also have "\<dots> = log 2 ?v - 8"
    using log_pow_cancel [of "2 :: real" 8] by simp
  also have "\<dots> = ln ?v / ln 2 - 8"
    by (simp only: log_def)
  finally have scaled: "log 2 (2251809415790101 / 2 ^ 59) = ln ?v / ln 2 - 8" .
  have "(13852879517 / 2251799813685248) * ln (2 :: real) \<le> (13852879517 / 2251799813685248) * (693147180561 / 10 ^ 12)"
    by (intro mult_left_mono ln_2_bounds) simp
  also have "\<dots> < 4264182065428954291 / 10 ^ 24"
    by simp
  also have "\<dots> \<le> ln ?v"
    by (rule ln_scaled_p0)
  finally have "13852879517 / 2251799813685248 < ln ?v / ln 2"
    using ln2 by (simp only: pos_less_divide_eq)
  moreover have "(- 9007192328301233 - 1 / 2) / 2 ^ 50 = (13852879517 / 2251799813685248) - (8 :: real)"
    by simp
  ultimately show "(- 9007192328301233 - 1 / 2) / 2 ^ 50 < log 2 (2251809415790101 / 2 ^ 59)"
    unfolding scaled by linarith
  have "ln ?v \<le> 4264182065428956292 / 10 ^ 24"
    by (rule ln_scaled_p0)
  also have "\<dots> < (13852879519 / 2251799813685248) * (693147180559 / 10 ^ 12)"
    by simp
  also have "\<dots> \<le> (13852879519 / 2251799813685248) * ln (2 :: real)"
    by (intro mult_left_mono ln_2_bounds) simp
  finally have "ln ?v / ln 2 < 13852879519 / 2251799813685248"
    using ln2 by (simp only: pos_divide_less_eq)
  moreover have "(- 9007192328301233 + 1 / 2) / 2 ^ 50 = (13852879519 / 2251799813685248) - (8 :: real)"
    by simp
  ultimately show "log 2 (2251809415790101 / 2 ^ 59) < (- 9007192328301233 + 1 / 2) / 2 ^ 50"
    unfolding scaled by linarith
qed

lemma log2_correct_p0: "log2_correct (2251809415790101 / 2 ^ 59) = - (9007192328301233 / 2 ^ 50)"
proof -
  let ?l = "log 2 (2251809415790101 / 2 ^ 59 :: real)"
  note b = log2_p0_bounds
  have lo: "- (2 powi 3) < ?l" and hi: "?l \<le> - (2 powi 2)"
    using b by simp_all
  then have "2 powi 2 \<le> \<bar>?l\<bar>" "\<bar>?l\<bar> < 2 powi (2 + 1)"
    by simp_all
  then have "binary64 ?l = of_int (round_half_even (?l * 2 powi (52 - 2))) * 2 powi (2 - 52)"
    by (rule binary64_eval) simp
  moreover have "round_half_even (?l * 2 powi (52 - 2)) = - 9007192328301233"
    using b by (intro round_half_even_eqI) (simp_all add: field_simps)
  ultimately show ?thesis
    by (simp add: log2_correct_def)
qed


lemma log2_p1_bounds:
  "(- 4503599640951780 - 1 / 2) / 2 ^ 49 < log 2 (9007199104119739 / 2 ^ 61)"
  "log 2 (9007199104119739 / 2 ^ 61) < (- 4503599640951780 + 1 / 2) / 2 ^ 49"
proof -
  let ?v = "9007199104119739 / 2 ^ 53 :: real"
  have ln2: "0 < ln (2 :: real)"
    by simp
  have "log 2 (9007199104119739 / 2 ^ 61) = log 2 (?v / 2 ^ 8)"
    by simp
  also have "\<dots> = log 2 ?v - log 2 (2 ^ 8)"
    by (rule log_divide_pos) simp_all
  also have "\<dots> = log 2 ?v - 8"
    using log_pow_cancel [of "2 :: real" 8] by simp
  also have "\<dots> = ln ?v / ln 2 - 8"
    by (simp only: log_def)
  finally have scaled: "log 2 (9007199104119739 / 2 ^ 61) = ln ?v / ln 2 - 8" .
  have "(- (27162569 / 1125899906842624)) * ln (2 :: real) \<le> (- (27162569 / 1125899906842624)) * (693147180559 / 10 ^ 12)"
    by (intro mult_left_mono_neg ln_2_bounds) simp
  also have "\<dots> < - (16722318447668060 / 10 ^ 24)"
    by simp
  also have "\<dots> \<le> ln ?v"
    by (rule ln_scaled_p1)
  finally have "- (27162569 / 1125899906842624) < ln ?v / ln 2"
    using ln2 by (simp only: pos_less_divide_eq)
  moreover have "(- 4503599640951780 - 1 / 2) / 2 ^ 49 = (- (27162569 / 1125899906842624)) - (8 :: real)"
    by simp
  ultimately show "(- 4503599640951780 - 1 / 2) / 2 ^ 49 < log 2 (9007199104119739 / 2 ^ 61)"
    unfolding scaled by linarith
  have "ln ?v \<le> - (16722318447666059 / 10 ^ 24)"
    by (rule ln_scaled_p1)
  also have "\<dots> < (- (27162567 / 1125899906842624)) * (693147180561 / 10 ^ 12)"
    by simp
  also have "\<dots> \<le> (- (27162567 / 1125899906842624)) * ln (2 :: real)"
    by (intro mult_left_mono_neg ln_2_bounds) simp
  finally have "ln ?v / ln 2 < - (27162567 / 1125899906842624)"
    using ln2 by (simp only: pos_divide_less_eq)
  moreover have "(- 4503599640951780 + 1 / 2) / 2 ^ 49 = (- (27162567 / 1125899906842624)) - (8 :: real)"
    by simp
  ultimately show "log 2 (9007199104119739 / 2 ^ 61) < (- 4503599640951780 + 1 / 2) / 2 ^ 49"
    unfolding scaled by linarith
qed

lemma log2_correct_p1: "log2_correct (9007199104119739 / 2 ^ 61) = - (4503599640951780 / 2 ^ 49)"
proof -
  let ?l = "log 2 (9007199104119739 / 2 ^ 61 :: real)"
  note b = log2_p1_bounds
  have lo: "- (2 powi 4) < ?l" and hi: "?l \<le> - (2 powi 3)"
    using b by simp_all
  then have "2 powi 3 \<le> \<bar>?l\<bar>" "\<bar>?l\<bar> < 2 powi (3 + 1)"
    by simp_all
  then have "binary64 ?l = of_int (round_half_even (?l * 2 powi (52 - 3))) * 2 powi (3 - 52)"
    by (rule binary64_eval) simp
  moreover have "round_half_even (?l * 2 powi (52 - 3)) = - 4503599640951780"
    using b by (intro round_half_even_eqI) (simp_all add: field_simps)
  ultimately show ?thesis
    by (simp add: log2_correct_def)
qed

subsection \<open>The estimator on the near-uniform buffer\<close>

lemma count_list_replicate: "count_list (replicate n x) y = (if x = y then n else 0)"
  by (induction n) auto

lemma count_list_concat_map:
  "count_list (concat (map f xs)) y = sum_list (map (\<lambda>x. count_list (f x) y) xs)"
  by (induction xs) simp_all

lemma near_uniform_count:
  "count_list near_uniform_buffer v = (if v = 0 then 233596 else 233595)"
proof -
  have idx: "unat v < 256"
    using unsigned_less [of v] by simp
  have "sum_list (map (\<lambda>k. count_list (replicate 233595 (of_nat k :: uint8_t)) v) [1..<256])
      = (\<Sum>k = 1..<256. if k = unat v then 233595 else 0)"
  proof -
    have "count_list (replicate 233595 (of_nat k :: uint8_t)) v = (if k = unat v then 233595 else 0)"
      if "k \<in> set [1..<256]" for k
    proof -
      from that have "k < 256"
        by simp
      then have "of_nat k = v \<longleftrightarrow> k = unat v"
        by (auto simp add: unat_of_nat)
      then show ?thesis
        by (simp add: count_list_replicate)
    qed
    then have "map (\<lambda>k. count_list (replicate 233595 (of_nat k :: uint8_t)) v) [1..<256]
        = map (\<lambda>k. if k = unat v then 233595 else 0) [1..<256]"
      by (intro map_cong refl)
    then show ?thesis
      by (simp only: interv_sum_list_conv_sum_set_nat set_upt)
  qed
  also have "\<dots> = (if unat v \<in> {1..<256} then 233595 else 0)"
    by (simp only: sum.delta finite_atLeastLessThan)
  also have "\<dots> = (if v = 0 then 0 else 233595)"
  proof -
    have "v = 0 \<longleftrightarrow> unat v = 0"
      by (simp add: unat_eq_zero)
    with idx show ?thesis
      by auto
  qed
  finally show ?thesis
    by (simp add: near_uniform_buffer_def count_list_replicate count_list_concat_map)
qed

lemma near_uniform_length: "length near_uniform_buffer = 59800321"
proof -
  have "length (concat (map (\<lambda>v. replicate 233595 (of_nat v :: uint8_t)) [1..<256]))
      = sum_list (map (\<lambda>v. 233595) [1..<256])"
    by (simp add: length_concat comp_def)
  also have "\<dots> = 255 * 233595"
    by (simp add: sum_list_triv)
  finally show ?thesis
    by (simp add: near_uniform_buffer_def)
qed

lemma near_uniform_counts:
  assumes "k < 256"
  shows "byte_counts near_uniform_buffer ! k = (if k = 0 then 233596 else 233595)"
proof -
  from assms have k: "unat (of_nat k :: uint8_t) = k"
    by (simp add: unat_of_nat)
  then have zero: "(of_nat k :: uint8_t) = 0 \<longleftrightarrow> k = 0"
    by (metis unat_eq_zero)
  have "byte_counts near_uniform_buffer ! unat (of_nat k :: uint8_t)
      = of_nat (count_list near_uniform_buffer (of_nat k))"
    by (rule byte_counts_nth)
  then show ?thesis
    by (simp add: k zero near_uniform_count)
qed

lemma probability_values:
  "binary64 59800321 = 59800321"
  "binary64 (233596 / 59800321) = 2251809415790101 / 2 ^ 59"
  "binary64 (233595 / 59800321) = 9007199104119739 / 2 ^ 61"
  by (simp_all add: binary64_at [where e = 25] binary64_at [where e = "- 8"]
      binary64_at [where e = "- 9"] round_at_def round_half_even_def)

lemmas binary64_sum_cases =
  binary64_at [where e = "3"]
  binary64_at [where e = "2"]
  binary64_at [where e = "1"]
  binary64_at [where e = "0"]
  binary64_at [where e = "- 1"]
  binary64_at [where e = "- 2"]
  binary64_at [where e = "- 3"]
  binary64_at [where e = "- 4"]
  binary64_at [where e = "- 5"]

lemma accumulate_numeral:
  "accumulate t (numeral k) entropy = accumulate t (pred_numeral k) (binary64 (entropy - t))"
  by (simp add: numeral_eq_Suc)

lemma term_values:
  "binary64 (2251809415790101 / 2 ^ 59 * - (9007192328301233 / 2 ^ 50)) = - (4503615368345555 / 2 ^ 57)"
  "binary64 (9007199104119739 / 2 ^ 61 * - (4503599640951780 / 2 ^ 49)) = - (9007199131282307 / 2 ^ 58)"
  by (simp_all add: binary64_at [where e = "- 5"] binary64_at [where e = "- 6"] round_at_def
      round_half_even_def)

lemma accumulate_value:
  "accumulate (- (9007199131282307 / 2 ^ 58)) 255 (binary64 (0 - - (4503615368345555 / 2 ^ 57)))
     = 8 + 1 / 2 ^ 48"
  by (simp add: accumulate_numeral binary64_sum_cases round_at_def round_half_even_def)

lemma near_uniform_probability:
  assumes "k < 256"
  shows "probability (byte_counts near_uniform_buffer) 59800321 k
     = (if k = 0 then 2251809415790101 / 2 ^ 59 else 9007199104119739 / 2 ^ 61)"
  using assms by (simp add: probability_def near_uniform_counts probability_values)

lemma near_uniform_tail:
  assumes lg: "lg (9007199104119739 / 2 ^ 61) = - (4503599640951780 / 2 ^ 49)"
    and "i + n = 256" "1 \<le> i"
  shows "entropy_loop lg (byte_counts near_uniform_buffer) 59800321 i entropy
     = accumulate (- (9007199131282307 / 2 ^ 58)) n entropy"
  using assms(2,3)
proof (induction n arbitrary: i entropy)
  case 0
  then have "i = 256"
    by simp
  then show ?case
    by (subst entropy_loop.simps) simp
next
  case (Suc n)
  then have i: "i < 256" "0 < i"
    by simp_all
  have count: "byte_counts near_uniform_buffer ! i = 233595"
    using i by (simp add: near_uniform_counts)
  have prob: "probability (byte_counts near_uniform_buffer) 59800321 i
      = 9007199104119739 / 2 ^ 61"
    using i by (simp add: near_uniform_probability)
  have step: "binary64 (probability (byte_counts near_uniform_buffer) 59800321 i
      * lg (probability (byte_counts near_uniform_buffer) 59800321 i))
      = - (9007199131282307 / 2 ^ 58)"
    by (simp only: prob lg term_values)
  have "entropy_loop lg (byte_counts near_uniform_buffer) 59800321 i entropy
      = entropy_loop lg (byte_counts near_uniform_buffer) 59800321 (i + 1)
          (binary64 (entropy - - (9007199131282307 / 2 ^ 58)))"
    using i by (subst entropy_loop.simps) (simp add: count step)
  also have "\<dots> = accumulate (- (9007199131282307 / 2 ^ 58)) n
      (binary64 (entropy - - (9007199131282307 / 2 ^ 58)))"
    using Suc.prems by (intro Suc.IH) simp_all
  finally show ?case
    by (simp only: accumulate.simps)
qed

lemma calculate_entropy_near_uniform:
  assumes "lg (2251809415790101 / 2 ^ 59) = - (9007192328301233 / 2 ^ 50)"
    and "lg (9007199104119739 / 2 ^ 61) = - (4503599640951780 / 2 ^ 49)"
  shows "calculate_entropy lg near_uniform_buffer = 8 + 1 / 2 ^ 48"
proof -
  let ?counts = "byte_counts near_uniform_buffer"
  have count: "?counts ! 0 = 233596"
    by (simp add: near_uniform_counts)
  have prob: "probability ?counts 59800321 0 = 2251809415790101 / 2 ^ 59"
    by (simp add: near_uniform_probability)
  have step: "binary64 (probability ?counts 59800321 0 * lg (probability ?counts 59800321 0))
      = - (4503615368345555 / 2 ^ 57)"
    by (simp only: prob assms(1) term_values)
  have "calculate_entropy lg near_uniform_buffer = entropy_loop lg ?counts 59800321 0 0"
    by (simp add: calculate_entropy_def near_uniform_length)
  also have "\<dots> = entropy_loop lg ?counts 59800321 1
      (binary64 (0 - - (4503615368345555 / 2 ^ 57)))"
    by (subst entropy_loop.simps) (simp add: count step)
  also have "\<dots> = accumulate (- (9007199131282307 / 2 ^ 58)) 255
      (binary64 (0 - - (4503615368345555 / 2 ^ 57)))"
    using assms(2) by (rule near_uniform_tail) simp_all
  also have "\<dots> = 8 + 1 / 2 ^ 48"
    by (rule accumulate_value)
  finally show ?thesis .
qed

lemma calculate_entropy_empty: "calculate_entropy lg [] = 0"
  by (simp add: calculate_entropy_def)

text \<open>
  C5: the specification puts the result in \<open>[0, 8]\<close>, and the reference entropy is in
  that range for every buffer. The function is not: on the near-uniform buffer of
  59,800,321 bytes, with a correctly rounded \<^verbatim>\<open>log2\<close>, the 256 rounded subtractions
  add up to \<open>8 + 2^-48\<close>, that is \<open>0x1.0000000000002p+3\<close>, above the bound the
  reference entropy of the same buffer respects.
\<close>

theorem calculate_entropy_above_range:
  "length near_uniform_buffer = 59800321
   \<and> calculate_entropy log2_correct near_uniform_buffer = 8 + 1 / 2 ^ 48
   \<and> entropy_reference near_uniform_buffer \<le> 8"
proof -
  have "calculate_entropy log2_correct near_uniform_buffer = 8 + 1 / 2 ^ 48"
    using log2_correct_p0 log2_correct_p1 by (rule calculate_entropy_near_uniform)
  moreover have "entropy_reference near_uniform_buffer \<le> 8"
    using entropy_reference_range [of near_uniform_buffer] by simp
  ultimately show ?thesis
    by (simp add: near_uniform_length)
qed

end
